theory Spec2Isabelle
  imports Main "HOL-Library.Word"
begin

section \<open>ThreadSafeRingBuffer\<close>

text \<open>
  The template \<^verbatim>\<open>ThreadSafeRingBuffer<T, capacity>\<close> of JobSystem.cpp: a fixed array
  \<^verbatim>\<open>data[capacity]\<close> and the two indices \<^verbatim>\<open>head\<close> (next write position) and
  \<^verbatim>\<open>tail\<close> (next read position). The mutex makes the body of each operation one atomic
  step, so an operation is a function from the buffer before to the buffer after.
  The template parameter \<^verbatim>\<open>capacity\<close> is the first argument of every operation.

  The indices are \<^verbatim>\<open>size_t\<close>. They are only ever assigned a value
  \<^verbatim>\<open>... % capacity\<close>, so they stay below \<^verbatim>\<open>capacity\<close> and \<^verbatim>\<open>head + 1\<close> cannot
  wrap; they are natural numbers here, and \<open>ring_wf\<close> is the range they stay in.
\<close>

record 'a ring =
  data :: "'a list"
  head :: nat
  tail :: nat

text \<open>The buffer as its default member initialisers leave it; \<open>d\<close> is a
  default-constructed \<^verbatim>\<open>T\<close>.\<close>

definition ring_init :: "nat \<Rightarrow> 'a \<Rightarrow> 'a ring" where
  "ring_init capacity d = \<lparr>data = replicate capacity d, head = 0, tail = 0\<rparr>"

definition push_back :: "nat \<Rightarrow> 'a \<Rightarrow> 'a ring \<Rightarrow> bool \<times> 'a ring" where
  "push_back capacity item q =
     (let next = (head q + 1) mod capacity in
      if next \<noteq> tail q
      then (True, q\<lparr>data := (data q)[head q := item], head := next\<rparr>)
      else (False, q))"

text \<open>\<^verbatim>\<open>pop_front(T& item)\<close>: the reference parameter is passed in and handed back;
  it is left as it was when nothing is popped.\<close>

definition pop_front :: "nat \<Rightarrow> 'a \<Rightarrow> 'a ring \<Rightarrow> bool \<times> 'a \<times> 'a ring" where
  "pop_front capacity item q =
     (if tail q \<noteq> head q
      then (True, data q ! tail q, q\<lparr>tail := (tail q + 1) mod capacity\<rparr>)
      else (False, item, q))"

text \<open>The buffers the operations are defined on: the array has \<open>capacity\<close> slots and both
  indices are inside it. Outside this range \<^verbatim>\<open>data[head]\<close> and \<^verbatim>\<open>data[tail]\<close> are out of
  bounds in the source; the initial buffer is in the range and both operations keep it.\<close>

definition ring_wf :: "nat \<Rightarrow> 'a ring \<Rightarrow> bool" where
  "ring_wf capacity q \<longleftrightarrow>
     length (data q) = capacity \<and> head q < capacity \<and> tail q < capacity"

text \<open>The resident items, oldest first: the slots from \<open>tail\<close> up to, not including,
  \<open>head\<close>, around the end of the array.\<close>

definition resident :: "nat \<Rightarrow> 'a ring \<Rightarrow> 'a list" where
  "resident capacity q =
     map (\<lambda>i. data q ! ((tail q + i) mod capacity))
       [0 ..< (head q + capacity - tail q) mod capacity]"

text \<open>Sequences of operations on one buffer. The run keeps, beside the buffer, the
  caller's variable that \<^verbatim>\<open>pop_front\<close> writes through its reference, and two
  histories: the items whose \<^verbatim>\<open>push_back\<close> returned true and the items handed out
  by a \<^verbatim>\<open>pop_front\<close> that returned true, each in the order of the calls.\<close>

datatype 'a ring_op = Push 'a | Pop

record 'a ring_run_state =
  buf :: "'a ring"
  item :: 'a
  pushed :: "'a list"
  popped :: "'a list"

definition ring_run_init :: "nat \<Rightarrow> 'a \<Rightarrow> 'a ring_run_state" where
  "ring_run_init capacity d = \<lparr>buf = ring_init capacity d, item = d, pushed = [], popped = []\<rparr>"

fun ring_op_step :: "nat \<Rightarrow> 'a ring_op \<Rightarrow> 'a ring_run_state \<Rightarrow> 'a ring_run_state" where
  "ring_op_step capacity (Push x) s =
     (case push_back capacity x (buf s) of
        (True, q) \<Rightarrow> s\<lparr>buf := q, pushed := pushed s @ [x]\<rparr>
      | (False, q) \<Rightarrow> s\<lparr>buf := q\<rparr>)"
| "ring_op_step capacity Pop s =
     (case pop_front capacity (item s) (buf s) of
        (True, x, q) \<Rightarrow> s\<lparr>buf := q, item := x, popped := popped s @ [x]\<rparr>
      | (False, x, q) \<Rightarrow> s\<lparr>buf := q, item := x\<rparr>)"

fun ring_run :: "nat \<Rightarrow> 'a ring_op list \<Rightarrow> 'a ring_run_state \<Rightarrow> 'a ring_run_state" where
  "ring_run capacity [] s = s"
| "ring_run capacity (x # ops) s = ring_run capacity ops (ring_op_step capacity x s)"

text \<open>What a run keeps true: the indices are in range, and the items pushed are the
  items popped followed by the resident ones.\<close>

definition ring_run_inv :: "nat \<Rightarrow> 'a ring_run_state \<Rightarrow> bool" where
  "ring_run_inv c s \<longleftrightarrow> ring_wf c (buf s) \<and> pushed s = popped s @ resident c (buf s)"

section \<open>Jobs\<close>

type_synonym u32 = "32 word"
type_synonym u64 = "64 word"

record JobDispatchArgs =
  jobIndex :: u32
  groupIndex :: u32

text \<open>
  A user callable is opaque: it is named by a number, and running it is recorded as an
  invocation, with the argument it was given. A job, the queue's
  \<^verbatim>\<open>std::function<void()>\<close>, is empty (default-constructed), a callable handed
  to \<^verbatim>\<open>Execute\<close>, or the closure \<^verbatim>\<open>jobGroup\<close> that \<^verbatim>\<open>Dispatch\<close> builds, with its
  captures \<^verbatim>\<open>[jobCount, groupSize, job, groupIndex]\<close> in that order.
\<close>

datatype invocation = Plain nat | Ranged nat u32 u32

datatype Job = NoJob | Single nat | jobGroup u32 u32 nat u32

lemma unat_inc_below:
  fixes i e :: "'a::len word"
  assumes "i < e"
  shows "unat (i + 1) = Suc (unat i)"
proof -
  from assms have a: "unat i < unat e" by (simp add: word_less_nat_alt)
  have b: "unat e < 2 ^ LENGTH('a)" by (rule unsigned_less)
  from a b have "Suc (unat i) < 2 ^ LENGTH('a)" by linarith
  then have "unat i + unat (1 :: 'a word) < 2 ^ LENGTH('a)" by simp
  then have "unat (i + 1) = unat i + unat (1 :: 'a word)" by (simp only: unat_add_lem)
  then show ?thesis by simp
qed

lemma word_loop_decreases:
  fixes i e :: "'a::len word"
  assumes "i < e"
  shows "unat e - unat (i + 1) < unat e - unat i"
  using assms unat_inc_below [OF assms] by (simp add: word_less_nat_alt)

text \<open>The inner loop of the closure,
  \<^verbatim>\<open>for (uint32_t i = groupJobOffset; i < groupJobEnd; ++i) { args.jobIndex = i; job(args); }\<close>:
  the invocations of \<open>job\<close> it makes, in order. \<open>Ranged f i g\<close> is the call of \<open>f\<close> with
  \<open>jobIndex = i\<close> and \<open>groupIndex = g\<close>.\<close>

function jobGroup_loop :: "nat \<Rightarrow> JobDispatchArgs \<Rightarrow> u32 \<Rightarrow> u32 \<Rightarrow> invocation list" where
  "jobGroup_loop job args i groupJobEnd =
     (if i < groupJobEnd
      then (let args' = args\<lparr>jobIndex := i\<rparr> in
            Ranged job (jobIndex args') (groupIndex args')
              # jobGroup_loop job args' (i + 1) groupJobEnd)
      else [])"
  by pat_completeness auto

termination
  by (relation "measure (\<lambda>(job, args, i, groupJobEnd). unat groupJobEnd - unat i)")
     (simp_all add: word_loop_decreases)

declare jobGroup_loop.simps [simp del]

text \<open>The body of the closure. \<^verbatim>\<open>args.jobIndex\<close> is not initialised in the source and
  is assigned before each call; it starts as 0 here.\<close>

definition jobGroup_body :: "u32 \<Rightarrow> u32 \<Rightarrow> nat \<Rightarrow> u32 \<Rightarrow> invocation list" where
  "jobGroup_body jobCount groupSize job gi =
     (let groupJobOffset = gi * groupSize;
          groupJobEnd = min (groupJobOffset + groupSize) jobCount;
          args = \<lparr>jobIndex = 0, groupIndex = gi\<rparr>
      in jobGroup_loop job args groupJobOffset groupJobEnd)"

text \<open>Calling a job. Calling an empty \<^verbatim>\<open>std::function\<close> throws
  \<^verbatim>\<open>std::bad_function_call\<close>, which nothing catches: \<open>None\<close>.\<close>

fun run_job :: "Job \<Rightarrow> invocation list option" where
  "run_job NoJob = None"
| "run_job (Single f) = Some [Plain f]"
| "run_job (jobGroup jobCount groupSize job gi) = Some (jobGroup_body jobCount groupSize job gi)"

section \<open>JobSystem\<close>

text \<open>
  The globals of namespace \<^verbatim>\<open>JobSystem\<close>, with the two things a thread keeps between
  its steps: where it is in its code, and its local variable \<^verbatim>\<open>job\<close> (\<open>local_job\<close>).

  A worker is at one of four places of its infinite loop: about to call \<^verbatim>\<open>pop_front\<close>
  (\<open>Fetch\<close>), about to call the job it popped (\<open>Exec\<close>), about to do
  \<^verbatim>\<open>finishedLabel.fetch_add(1)\<close> (\<open>Finish\<close>), or in \<^verbatim>\<open>wakeCondition.wait\<close>
  (\<open>Sleep\<close>). \<^verbatim>\<open>wait\<close> is called without a predicate, so it may return at any time
  (on \<^verbatim>\<open>notify_one\<close> or spuriously): a sleeping worker can always take its next step,
  and the condition variable and its mutex need no state of their own.

  The submitting thread is outside any call (\<open>Idle\<close>), in the loop
  \<^verbatim>\<open>while (!jobPool.push_back(job)) { poll(); }\<close> of \<^verbatim>\<open>Execute\<close> or \<^verbatim>\<open>Dispatch\<close> with
  the jobs it still has to push (\<open>Pushing\<close>), or in the loop of \<^verbatim>\<open>Wait\<close> (\<open>Waiting\<close>).
  \<^verbatim>\<open>currentLabel\<close> is a plain \<^verbatim>\<open>uint64_t\<close>: there is one submitting thread, and job
  bodies do not call back into the job system.

  \<open>invoked\<close> is a history, not a variable of the program: the invocations of user
  callables made so far.
\<close>

datatype pc = Fetch | Exec | Finish | Sleep

record worker =
  pc :: pc
  local_job :: Job

datatype caller = Idle | Pushing "Job list" | Waiting

record sys =
  numThreads :: u32
  jobPool :: "Job ring"
  currentLabel :: u64
  finishedLabel :: u64
  workers :: "worker list"
  caller :: caller
  invoked :: "invocation list"

text \<open>The capacity the queue \<^verbatim>\<open>jobPool\<close> is instantiated with.\<close>

definition jobPool_capacity :: nat where
  "jobPool_capacity = 256"

text \<open>The globals after static initialisation, before \<^verbatim>\<open>Initialize\<close>: the atomic
  \<^verbatim>\<open>finishedLabel\<close> has static storage and is zero.\<close>

definition static_init :: sys where
  "static_init =
     \<lparr>numThreads = 0, jobPool = ring_init jobPool_capacity NoJob, currentLabel = 0, finishedLabel = 0,
      workers = [], caller = Idle, invoked = []\<rparr>"

text \<open>The loop of \<^verbatim>\<open>Initialize\<close> that starts the threads:
  \<^verbatim>\<open>for (uint32_t threadID = 0; threadID < numThreads; ++threadID)\<close>. A new worker
  is at the top of its loop with an empty \<^verbatim>\<open>job\<close>.\<close>

function spawn_workers :: "u32 \<Rightarrow> u32 \<Rightarrow> worker list \<Rightarrow> worker list" where
  "spawn_workers threadID n ws =
     (if threadID < n
      then spawn_workers (threadID + 1) n (ws @ [\<lparr>pc = Fetch, local_job = NoJob\<rparr>])
      else ws)"
  by pat_completeness auto
termination
  by (relation "measure (\<lambda>(threadID, n, ws). unat n - unat threadID)")
     (simp_all add: word_loop_decreases)

declare spawn_workers.simps [simp del]

text \<open>\<^verbatim>\<open>Initialize\<close>; \<open>numCores\<close> is what
  \<^verbatim>\<open>std::thread::hardware_concurrency()\<close> returns.\<close>

definition Initialize :: "u32 \<Rightarrow> sys \<Rightarrow> sys" where
  "Initialize numCores s =
     (let s1 = s\<lparr>finishedLabel := 0\<rparr>;
          s2 = s1\<lparr>numThreads := max 1 numCores\<rparr>
      in s2\<lparr>workers := spawn_workers 0 (numThreads s2) (workers s2)\<rparr>)"

text \<open>\<^verbatim>\<open>Execute\<close> up to its loop: the label is updated, and the job is what the loop
  has to push.\<close>

definition Execute :: "Job \<Rightarrow> sys \<Rightarrow> sys" where
  "Execute j s = s\<lparr>currentLabel := currentLabel s + 1, caller := Pushing [j]\<rparr>"

text \<open>\<^verbatim>\<open>IsBusy\<close>, with the state it leaves.\<close>

definition IsBusy :: "sys \<Rightarrow> bool \<times> sys" where
  "IsBusy s = (finishedLabel s < currentLabel s, s)"

definition Wait :: "sys \<Rightarrow> sys" where
  "Wait s = s\<lparr>caller := Waiting\<rparr>"

text \<open>The loop of \<^verbatim>\<open>Dispatch\<close>,
  \<^verbatim>\<open>for (uint32_t groupIndex = 0; groupIndex < groupCount; ++groupIndex)\<close>: the closures
  it builds and pushes, in order.\<close>

function Dispatch_loop :: "u32 \<Rightarrow> u32 \<Rightarrow> nat \<Rightarrow> u32 \<Rightarrow> u32 \<Rightarrow> Job list" where
  "Dispatch_loop jobCount groupSize job groupCount gi =
     (if gi < groupCount
      then jobGroup jobCount groupSize job gi
             # Dispatch_loop jobCount groupSize job groupCount (gi + 1)
      else [])"
  by pat_completeness auto
termination
  by (relation "measure (\<lambda>(jobCount, groupSize, job, groupCount, gi). unat groupCount - unat gi)")
     (simp_all add: word_loop_decreases)

declare Dispatch_loop.simps [simp del]

definition groupCount :: "u32 \<Rightarrow> u32 \<Rightarrow> u32" where
  "groupCount jobCount groupSize = (jobCount + groupSize - 1) div groupSize"

text \<open>\<^verbatim>\<open>Dispatch\<close> up to its first \<^verbatim>\<open>push_back\<close>. \<^verbatim>\<open>currentLabel += groupCount\<close>
  widens the 32-bit count to 64 bits.\<close>

definition Dispatch :: "u32 \<Rightarrow> u32 \<Rightarrow> nat \<Rightarrow> sys \<Rightarrow> sys" where
  "Dispatch jobCount groupSize job s =
     (if jobCount = 0 \<or> groupSize = 0 then s
      else s\<lparr>currentLabel := currentLabel s + ucast (groupCount jobCount groupSize),
             caller := Pushing (Dispatch_loop jobCount groupSize job
                                  (groupCount jobCount groupSize) 0)\<rparr>)"

subsection \<open>Steps\<close>

text \<open>
  An event is a call of the interface by the submitting thread, the next step of the
  submitting thread inside a call, or the next step of worker \<open>i\<close>. A step is \<open>None\<close>
  when the event cannot happen in the state (a call while another call is running, a step
  of a thread that does not exist) or when the program stops there (a worker calls an
  empty job). One step is one access to the shared state: one locked queue operation,
  one update of a label, one test of \<^verbatim>\<open>IsBusy\<close>.
\<close>

datatype event =
  Call_Execute Job | Call_Dispatch u32 u32 nat | Call_Wait | Caller_step | Worker_step nat

definition caller_step :: "sys \<Rightarrow> sys option" where
  "caller_step s =
     (case caller s of
        Idle \<Rightarrow> None
      | Pushing [] \<Rightarrow> Some (s\<lparr>caller := Idle\<rparr>)
      | Pushing (j # js) \<Rightarrow>
          (case push_back jobPool_capacity j (jobPool s) of
             (True, q) \<Rightarrow> Some (s\<lparr>jobPool := q, caller := Pushing js\<rparr>)
           | (False, q) \<Rightarrow> Some (s\<lparr>jobPool := q\<rparr>))
      | Waiting \<Rightarrow>
          (case IsBusy s of
             (True, s') \<Rightarrow> Some s'
           | (False, s') \<Rightarrow> Some (s'\<lparr>caller := Idle\<rparr>)))"

definition worker_step :: "nat \<Rightarrow> sys \<Rightarrow> sys option" where
  "worker_step i s =
     (if i < length (workers s) then
        (let w = workers s ! i in
         case pc w of
           Fetch \<Rightarrow>
             (case pop_front jobPool_capacity (local_job w) (jobPool s) of
                (True, j, q) \<Rightarrow>
                  Some (s\<lparr>jobPool := q, workers := (workers s)[i := \<lparr>pc = Exec, local_job = j\<rparr>]\<rparr>)
              | (False, j, q) \<Rightarrow>
                  Some (s\<lparr>jobPool := q, workers := (workers s)[i := \<lparr>pc = Sleep, local_job = j\<rparr>]\<rparr>))
         | Exec \<Rightarrow>
             (case run_job (local_job w) of
                None \<Rightarrow> None
              | Some calls \<Rightarrow>
                  Some (s\<lparr>invoked := invoked s @ calls, workers := (workers s)[i := w\<lparr>pc := Finish\<rparr>]\<rparr>))
         | Finish \<Rightarrow>
             Some (s\<lparr>finishedLabel := finishedLabel s + 1,
                     workers := (workers s)[i := w\<lparr>pc := Fetch\<rparr>]\<rparr>)
         | Sleep \<Rightarrow> Some (s\<lparr>workers := (workers s)[i := w\<lparr>pc := Fetch\<rparr>]\<rparr>))
      else None)"

fun step :: "event \<Rightarrow> sys \<Rightarrow> sys option" where
  "step (Call_Execute j) s = (if caller s = Idle then Some (Execute j s) else None)"
| "step (Call_Dispatch jobCount groupSize f) s =
     (if caller s = Idle then Some (Dispatch jobCount groupSize f s) else None)"
| "step Call_Wait s = (if caller s = Idle then Some (Wait s) else None)"
| "step Caller_step s = caller_step s"
| "step (Worker_step i) s = worker_step i s"

fun run :: "event list \<Rightarrow> sys \<Rightarrow> sys option" where
  "run [] s = Some s"
| "run (e # es) s = (case step e s of None \<Rightarrow> None | Some s' \<Rightarrow> run es s')"

text \<open>What is submitted and not yet counted as finished: the jobs in the queue, the jobs
  a worker has popped and not yet counted, and the jobs the submitting thread has
  announced in \<^verbatim>\<open>currentLabel\<close> and not yet pushed.\<close>

definition busy :: "worker \<Rightarrow> bool" where
  "busy w \<longleftrightarrow> pc w = Exec \<or> pc w = Finish"

fun pending :: "caller \<Rightarrow> nat" where
  "pending (Pushing js) = length js"
| "pending Idle = 0"
| "pending Waiting = 0"

definition unfinished :: "sys \<Rightarrow> nat" where
  "unfinished s =
     length (resident jobPool_capacity (jobPool s)) + length (filter busy (workers s)) + pending (caller s)"

definition idle :: "sys \<Rightarrow> bool" where
  "idle s \<longleftrightarrow> unfinished s = 0"

text \<open>The units an event adds to the submitted counter, as a natural number.\<close>

fun submits :: "event \<Rightarrow> nat" where
  "submits (Call_Execute j) = 1"
| "submits (Call_Dispatch jobCount groupSize f) =
     (if jobCount = 0 \<or> groupSize = 0 then 0 else unat (groupCount jobCount groupSize))"
| "submits Call_Wait = 0"
| "submits Caller_step = 0"
| "submits (Worker_step i) = 0"

definition submitted_total :: "event list \<Rightarrow> nat" where
  "submitted_total es = sum_list (map submits es)"


text \<open>What every step keeps true, for \<open>n\<close> the units submitted so far as a natural
  number: the labels are \<open>n\<close> and \<open>n\<close> minus the unfinished units, as 64-bit values.\<close>

definition label_inv :: "nat \<Rightarrow> sys \<Rightarrow> bool" where
  "label_inv n s \<longleftrightarrow>
     ring_wf jobPool_capacity (jobPool s) \<and> currentLabel s = of_nat n \<and> unfinished s \<le> n
     \<and> finishedLabel s = of_nat (n - unfinished s)"

text \<open>The order of the two labels.\<close>

definition labels_ordered :: "sys \<Rightarrow> bool" where
  "labels_ordered s \<longleftrightarrow> finishedLabel s \<le> currentLabel s"

text \<open>The two labels are equal.\<close>

definition labels_equal :: "sys \<Rightarrow> bool" where
  "labels_equal s \<longleftrightarrow> finishedLabel s = currentLabel s"

text \<open>One job from submission to completion with one worker: \<^verbatim>\<open>Execute\<close> is called, its
  loop pushes the job and returns, and worker 0 pops the job, runs it and counts it.\<close>

definition one_job_round :: "event list" where
  "one_job_round =
     [Call_Execute (Single 0), Caller_step, Caller_step, Worker_step 0, Worker_step 0, Worker_step 0]"

text \<open>The states between two such rounds, after \<open>k\<close> of them: nothing is queued or
  running, worker 0 is at the top of its loop, and both labels are \<open>k\<close> as 64-bit
  values.\<close>

definition settled :: "nat \<Rightarrow> sys \<Rightarrow> bool" where
  "settled k s \<longleftrightarrow>
     caller s = Idle \<and> length (workers s) = 1 \<and> pc (workers s ! 0) = Fetch
     \<and> ring_wf jobPool_capacity (jobPool s) \<and> head (jobPool s) = tail (jobPool s)
     \<and> currentLabel s = of_nat k \<and> finishedLabel s = of_nat k"

text \<open>The sizes that stay below \<open>2^32\<close>: the number of workers (\<^verbatim>\<open>numThreads\<close> is a
  \<^verbatim>\<open>uint32_t\<close>) and the number of group jobs one \<^verbatim>\<open>Dispatch\<close> has still to push.\<close>

definition size_inv :: "sys \<Rightarrow> bool" where
  "size_inv s \<longleftrightarrow> length (workers s) < 2 ^ 32 \<and> pending (caller s) < 2 ^ 32"

subsection \<open>Several submitting threads\<close>

text \<open>
  The same program with any number of threads that call \<^verbatim>\<open>Execute\<close>, \<^verbatim>\<open>Dispatch\<close> and
  \<^verbatim>\<open>Wait\<close>. \<^verbatim>\<open>currentLabel\<close> is a plain \<^verbatim>\<open>uint64_t\<close>, so \<^verbatim>\<open>currentLabel += k\<close> is two
  accesses, a load and a store of the sum, and another thread can run between them.
  A submitting thread has loaded \<^verbatim>\<open>currentLabel\<close> and not yet stored the sum
  (\<open>Adding\<close>, with the value loaded, the amount to add and the jobs its loop then has to
  push), or it is at one of the places of \<open>caller\<close> (\<open>At\<close>), where its steps are those
  of \<open>caller_step\<close>. The globals are those of \<open>sys\<close>; the field \<open>caller\<close> of the
  globals is not used between steps and stays \<open>Idle\<close>.
\<close>

datatype submitter = Adding u64 u64 "Job list" | At caller

record msys =
  globals :: sys
  submitters :: "submitter list"

definition minit :: "nat \<Rightarrow> u32 \<Rightarrow> msys" where
  "minit n numCores =
     \<lparr>globals = Initialize numCores static_init, submitters = replicate n (At Idle)\<rparr>"

text \<open>The load of \<^verbatim>\<open>currentLabel += k\<close> by thread \<open>t\<close>.\<close>

definition load_label :: "nat \<Rightarrow> u64 \<Rightarrow> Job list \<Rightarrow> msys \<Rightarrow> msys" where
  "load_label t k js s =
     s\<lparr>submitters := (submitters s)[t := Adding (currentLabel (globals s)) k js]\<rparr>"

text \<open>The next step of thread \<open>t\<close> inside a call: the store of \<^verbatim>\<open>currentLabel += k\<close>, or a
  step of the loop of \<^verbatim>\<open>Execute\<close>, \<^verbatim>\<open>Dispatch\<close> or \<^verbatim>\<open>Wait\<close>.\<close>

definition submitter_step :: "nat \<Rightarrow> msys \<Rightarrow> msys option" where
  "submitter_step t s =
     (if t < length (submitters s) then
        (case submitters s ! t of
           Adding tmp k js \<Rightarrow>
             Some (s\<lparr>globals := (globals s)\<lparr>currentLabel := tmp + k\<rparr>,
                     submitters := (submitters s)[t := At (Pushing js)]\<rparr>)
         | At c \<Rightarrow>
             (case caller_step ((globals s)\<lparr>caller := c\<rparr>) of
                None \<Rightarrow> None
              | Some g \<Rightarrow>
                  Some (s\<lparr>globals := g\<lparr>caller := Idle\<rparr>,
                          submitters := (submitters s)[t := At (caller g)]\<rparr>)))
      else None)"

datatype mevent =
  Execute_by nat Job | Dispatch_by nat u32 u32 nat | Wait_by nat | Submitter_step nat
  | Worker_of nat

definition outside :: "nat \<Rightarrow> msys \<Rightarrow> bool" where
  "outside t s \<longleftrightarrow> t < length (submitters s) \<and> submitters s ! t = At Idle"

fun mstep :: "mevent \<Rightarrow> msys \<Rightarrow> msys option" where
  "mstep (Execute_by t j) s = (if outside t s then Some (load_label t 1 [j] s) else None)"
| "mstep (Dispatch_by t jobCount groupSize f) s =
     (if outside t s then
        (if jobCount = 0 \<or> groupSize = 0 then Some s
         else Some (load_label t (ucast (groupCount jobCount groupSize))
                      (Dispatch_loop jobCount groupSize f (groupCount jobCount groupSize) 0) s))
      else None)"
| "mstep (Wait_by t) s =
     (if outside t s then Some (s\<lparr>submitters := (submitters s)[t := At Waiting]\<rparr>) else None)"
| "mstep (Submitter_step t) s = submitter_step t s"
| "mstep (Worker_of i) s =
     (case worker_step i (globals s) of None \<Rightarrow> None | Some g \<Rightarrow> Some (s\<lparr>globals := g\<rparr>))"

fun mrun :: "mevent list \<Rightarrow> msys \<Rightarrow> msys option" where
  "mrun [] s = Some s"
| "mrun (e # es) s = (case mstep e s of None \<Rightarrow> None | Some s' \<Rightarrow> mrun es s')"

text \<open>Two threads call \<^verbatim>\<open>Execute\<close> at the same time: both load \<^verbatim>\<open>currentLabel\<close>, both
  store the value loaded plus one, both push their job and return; then the one worker
  pops, runs and counts the two jobs.\<close>

definition lost_update :: "mevent list" where
  "lost_update =
     [Execute_by 0 (Single 1), Execute_by 1 (Single 2),
      Submitter_step 0, Submitter_step 1,
      Submitter_step 0, Submitter_step 1,
      Submitter_step 0, Submitter_step 1,
      Worker_of 0, Worker_of 0, Worker_of 0,
      Worker_of 0, Worker_of 0, Worker_of 0]"

text \<open>With one submitting thread: its place as the one \<open>caller\<close> of \<open>sys\<close>, the units it
  has loaded the label for and not yet stored, and the units the calls of a run submit.\<close>

fun place :: "submitter \<Rightarrow> caller" where
  "place (At c) = c"
| "place (Adding tmp k js) = Idle"

fun owed :: "submitter \<Rightarrow> nat" where
  "owed (At c) = 0"
| "owed (Adding tmp k js) = unat k"

definition single :: "msys \<Rightarrow> sys" where
  "single s = (globals s)\<lparr>caller := place (submitters s ! 0)\<rparr>"

fun msubmits :: "mevent \<Rightarrow> nat" where
  "msubmits (Execute_by t j) = 1"
| "msubmits (Dispatch_by t jobCount groupSize f) =
     (if jobCount = 0 \<or> groupSize = 0 then 0 else unat (groupCount jobCount groupSize))"
| "msubmits (Wait_by t) = 0"
| "msubmits (Submitter_step t) = 0"
| "msubmits (Worker_of i) = 0"

definition msubmitted_total :: "mevent list \<Rightarrow> nat" where
  "msubmitted_total es = sum_list (map msubmits es)"

text \<open>An \<open>event\<close> of the program with one submitting thread adds \<open>k\<close> to
  \<^verbatim>\<open>currentLabel\<close> and leaves the jobs \<open>js\<close> to push.\<close>

definition announces :: "event \<Rightarrow> u64 \<Rightarrow> Job list \<Rightarrow> bool" where
  "announces e k js \<longleftrightarrow>
     submits e = unat k \<and>
     (\<forall>g. caller g = Idle \<longrightarrow>
        step e g = Some (g\<lparr>currentLabel := currentLabel g + k, caller := Pushing js\<rparr>))"

text \<open>What holds of every state of a run with one submitting thread: a value it has
  loaded is still the value of \<^verbatim>\<open>currentLabel\<close>, since no other thread stores to it, and
  the call it is in is one of \<^verbatim>\<open>Execute\<close> and \<^verbatim>\<open>Dispatch\<close>.\<close>

definition one_inv :: "msys \<Rightarrow> bool" where
  "one_inv s \<longleftrightarrow>
     length (submitters s) = 1 \<and> caller (globals s) = Idle \<and>
     (\<forall>tmp k js. submitters s ! 0 = Adding tmp k js \<longrightarrow>
        tmp = currentLabel (globals s) \<and> (\<exists>e. announces e k js))"

text \<open>The state is reached, with \<open>n\<close> units submitted, by a run of the program with one
  submitting thread.\<close>

definition bridged :: "u32 \<Rightarrow> nat \<Rightarrow> msys \<Rightarrow> bool" where
  "bridged numCores n s \<longleftrightarrow>
     one_inv s \<and>
     (\<exists>es. run es (Initialize numCores static_init) = Some (single s)
        \<and> submitted_total es + owed (submitters s ! 0) = n)"

section \<open>Properties of the ring buffer\<close>

lemma ring_wf_init: "0 < c \<Longrightarrow> ring_wf c (ring_init c d)"
  by (simp add: ring_wf_def ring_init_def)

lemma resident_init: "resident c (ring_init c d) = []"
  by (simp add: resident_def ring_init_def)

lemma idx_head:
  assumes "h < (c::nat)" "t < c"
  shows "(t + (h + c - t) mod c) mod c = h"
proof (cases "t \<le> h")
  case True
  then have "(h + c - t) mod c = h - t" using assms by (simp add: mod_if)
  then show ?thesis using True assms by simp
next
  case False
  then have "(h + c - t) mod c = h + c - t" using assms by (simp add: mod_if)
  then show ?thesis using False assms by simp
qed

lemma idx_not_head:
  assumes "h < (c::nat)" "t < c" "i < (h + c - t) mod c"
  shows "(t + i) mod c \<noteq> h"
proof (cases "t \<le> h")
  case True
  then have "(h + c - t) mod c = h - t" using assms by (simp add: mod_if)
  then show ?thesis using True assms by simp
next
  case False
  then have "(h + c - t) mod c = h + c - t" using assms by (simp add: mod_if)
  then show ?thesis using False assms by (auto simp: mod_if)
qed

lemma count_push:
  assumes "h < (c::nat)" "t < c" "Suc h mod c \<noteq> t"
  shows "(Suc h mod c + c - t) mod c = Suc ((h + c - t) mod c)"
  using assms by (auto simp: mod_if split: if_splits)

lemma count_pop:
  assumes "h < (c::nat)" "t < c" "t \<noteq> h"
  shows "(h + c - t) mod c = Suc ((h + c - Suc t mod c) mod c)"
  using assms by (auto simp: mod_if split: if_splits)

lemma idx_pop: "(Suc t mod c + i) mod c = (t + Suc i) mod (c::nat)"
  by (metis add_Suc add_Suc_right mod_add_left_eq)

lemma resident_push:
  assumes wf: "ring_wf c q" and nf: "(head q + 1) mod c \<noteq> tail q"
  shows "resident c (snd (push_back c x q)) = resident c q @ [x]"
proof -
  let ?n = "(head q + c - tail q) mod c"
  from wf have h: "head q < c" and t: "tail q < c" and l: "length (data q) = c"
    by (simp_all add: ring_wf_def)
  from nf have nf': "Suc (head q) mod c \<noteq> tail q" by simp
  have n': "(Suc (head q) mod c + c - tail q) mod c = Suc ?n"
    using h t nf' by (rule count_push)
  have old: "(data q)[head q := x] ! ((tail q + i) mod c) = data q ! ((tail q + i) mod c)"
    if "i < ?n" for i
    using idx_not_head [OF h t that] by simp
  have new: "(data q)[head q := x] ! ((tail q + ?n) mod c) = x"
    using idx_head [OF h t] h l by simp
  have "map (\<lambda>i. (data q)[head q := x] ! ((tail q + i) mod c)) [0..<Suc ?n]
      = map (\<lambda>i. data q ! ((tail q + i) mod c)) [0..<?n] @ [x]"
    using old new by simp
  then show ?thesis
    using nf' by (simp add: push_back_def resident_def Let_def n' del: upt_Suc)
qed

lemma resident_pop:
  assumes wf: "ring_wf c q" and ne: "tail q \<noteq> head q"
  shows "resident c q = data q ! tail q # resident c (q\<lparr>tail := (tail q + 1) mod c\<rparr>)"
proof -
  let ?m = "(head q + c - Suc (tail q) mod c) mod c"
  from wf have h: "head q < c" and t: "tail q < c"
    by (simp_all add: ring_wf_def)
  have n: "(head q + c - tail q) mod c = Suc ?m"
    using h t ne by (rule count_pop)
  have "[0..<Suc ?m] = 0 # map Suc [0..<?m]"
    by (simp add: upt_conv_Cons map_Suc_upt del: upt_Suc)
  then have "map (\<lambda>i. data q ! ((tail q + i) mod c)) [0..<Suc ?m]
      = data q ! tail q # map (\<lambda>i. data q ! ((Suc (tail q) mod c + i) mod c)) [0..<?m]"
    using t by (simp add: idx_pop comp_def del: upt_Suc)
  then show ?thesis
    by (simp add: resident_def n del: upt_Suc)
qed

lemma length_resident: "length (resident c q) = (head q + c - tail q) mod c"
  by (simp add: resident_def)

lemma ring_wf_push: "ring_wf c q \<Longrightarrow> ring_wf c (snd (push_back c x q))"
  by (simp add: ring_wf_def push_back_def Let_def)

lemma ring_wf_pop: "ring_wf c q \<Longrightarrow> ring_wf c (snd (snd (pop_front c v q)))"
  by (simp add: ring_wf_def pop_front_def)

lemma resident_bound: "0 < c \<Longrightarrow> length (resident c q) \<le> c - 1"
proof -
  assume "0 < c"
  then have "(head q + c - tail q) mod c < c" by simp
  then show ?thesis by (simp add: resident_def)
qed

lemma resident_empty_iff:
  assumes "ring_wf c q"
  shows "resident c q = [] \<longleftrightarrow> head q = tail q"
  using assms by (auto simp: resident_def ring_wf_def mod_if split: if_splits)

lemma resident_full_iff:
  assumes "ring_wf c q"
  shows "length (resident c q) = c - 1 \<longleftrightarrow> (head q + 1) mod c = tail q"
  using assms by (auto simp: resident_def ring_wf_def mod_if split: if_splits)

lemma ring_op_step_inv:
  assumes "ring_run_inv c s"
  shows "ring_run_inv c (ring_op_step c x s)"
proof (cases x)
  case (Push y)
  show ?thesis
  proof (cases "(head (buf s) + 1) mod c = tail (buf s)")
    case True
    then have "push_back c y (buf s) = (False, buf s)" by (simp add: push_back_def)
    with assms Push show ?thesis by (simp add: ring_run_inv_def)
  next
    case False
    then obtain q where q: "push_back c y (buf s) = (True, q)" by (simp add: push_back_def Let_def)
    from assms have wf: "ring_wf c (buf s)" by (simp add: ring_run_inv_def)
    have "resident c q = resident c (buf s) @ [y]"
      using resident_push [OF wf False, of y] q by simp
    moreover have "ring_wf c q" using ring_wf_push [OF wf, of y] q by simp
    ultimately show ?thesis using assms Push q by (simp add: ring_run_inv_def)
  qed
next
  case Pop
  from assms have wf: "ring_wf c (buf s)" by (simp add: ring_run_inv_def)
  show ?thesis
  proof (cases "tail (buf s) = head (buf s)")
    case True
    then have "pop_front c (item s) (buf s) = (False, item s, buf s)" by (simp add: pop_front_def)
    with assms Pop show ?thesis by (simp add: ring_run_inv_def)
  next
    case False
    let ?q = "(buf s)\<lparr>tail := (tail (buf s) + 1) mod c\<rparr>"
    have p: "pop_front c (item s) (buf s) = (True, data (buf s) ! tail (buf s), ?q)"
      using False by (simp add: pop_front_def)
    have "ring_wf c ?q" using ring_wf_pop [OF wf, of "item s"] p by simp
    moreover note resident_pop [OF wf False]
    ultimately show ?thesis using assms Pop p by (simp add: ring_run_inv_def)
  qed
qed

lemma ring_run_inv_run:
  "ring_run_inv c s \<Longrightarrow> ring_run_inv c (ring_run c ops s)"
  by (induction ops arbitrary: s) (simp_all add: ring_op_step_inv)

lemma ring_run_inv_init: "0 < c \<Longrightarrow> ring_run_inv c (ring_run_init c d)"
  by (simp add: ring_run_inv_def ring_run_init_def ring_wf_init resident_init)

lemma ring_run_snoc: "ring_run c (ops @ [x]) s = ring_op_step c x (ring_run c ops s)"
  by (induction ops arbitrary: s) simp_all

subsection \<open>push\_back\<close>

text \<open>
  C2. In every buffer whose indices are in range, \<^verbatim>\<open>push_back\<close> returns true exactly
  when \<open>(head + 1) mod capacity \<noteq> tail\<close>. When it returns true, the item is written at
  \<open>head\<close>, \<open>head\<close> moves to the next slot and the item is the newest resident one.
  When it returns false, the buffer (array, \<open>head\<close> and \<open>tail\<close>) is as it was.
\<close>

theorem push_back_contract:
  assumes "ring_wf c q"
  shows "(fst (push_back c x q) \<longleftrightarrow> (head q + 1) mod c \<noteq> tail q)
    \<and> (fst (push_back c x q) \<longrightarrow>
          snd (push_back c x q) = q\<lparr>data := (data q)[head q := x], head := (head q + 1) mod c\<rparr>
        \<and> resident c (snd (push_back c x q)) = resident c q @ [x]
        \<and> ring_wf c (snd (push_back c x q)))
    \<and> (\<not> fst (push_back c x q) \<longrightarrow> snd (push_back c x q) = q)"
proof (cases "(head q + 1) mod c = tail q")
  case True
  then show ?thesis by (simp add: push_back_def)
next
  case False
  have "resident c (snd (push_back c x q)) = resident c q @ [x]"
    using assms False by (rule resident_push)
  moreover have "ring_wf c (snd (push_back c x q))"
    using assms by (rule ring_wf_push)
  moreover have "push_back c x q = (True, q\<lparr>data := (data q)[head q := x], head := (head q + 1) mod c\<rparr>)"
    using False by (simp add: push_back_def Let_def)
  ultimately show ?thesis using False by simp
qed

theorem push_back_contract_witness:
  "ring_wf 256 \<lparr>data = replicate 256 (0::nat), head = 255, tail = 0\<rparr>
   \<and> push_back 256 7 \<lparr>data = replicate 256 (0::nat), head = 255, tail = 0\<rparr>
       = (False, \<lparr>data = replicate 256 0, head = 255, tail = 0\<rparr>)
   \<and> ring_wf 256 (ring_init 256 (0::nat))
   \<and> fst (push_back 256 7 (ring_init 256 (0::nat)))
   \<and> resident 256 (snd (push_back 256 7 (ring_init 256 (0::nat)))) = [7]"
  using push_back_contract [of 256 "ring_init 256 (0::nat)" 7]
    push_back_contract [of 256 "\<lparr>data = replicate 256 (0::nat), head = 255, tail = 0\<rparr>" 7]
  by (simp add: ring_wf_def ring_init_def resident_def push_back_def)

subsection \<open>Occupancy\<close>

text \<open>A run of \<open>n < c\<close> pushes on the empty buffer fills the first \<open>n\<close> slots.\<close>

lemma fill_run:
  "n < c \<Longrightarrow> ring_run c (replicate n (Push x)) (ring_run_init c d) =
     \<lparr>buf = \<lparr>data = replicate n x @ replicate (c - n) d, head = n, tail = 0\<rparr>, item = d,
      pushed = replicate n x, popped = []\<rparr>"
proof (induction n)
  case 0
  then show ?case by (simp add: ring_run_init_def ring_init_def)
next
  case (Suc n)
  have "replicate (Suc n) (Push x) = replicate n (Push x) @ [Push x]"
    by (simp add: replicate_append_same)
  then have "ring_run c (replicate (Suc n) (Push x)) (ring_run_init c d)
      = ring_op_step c (Push x) (ring_run c (replicate n (Push x)) (ring_run_init c d))"
    by (simp only: ring_run_snoc)
  also have "\<dots> = ring_op_step c (Push x) \<lparr>buf = \<lparr>data = replicate n x @ replicate (c - n) d, head = n, tail = 0\<rparr>, item = d,
      pushed = replicate n x, popped = []\<rparr>"
    using Suc by simp
  also have "\<dots> = \<lparr>buf = \<lparr>data = replicate (Suc n) x @ replicate (c - Suc n) d, head = Suc n, tail = 0\<rparr>, item = d,
      pushed = replicate (Suc n) x, popped = []\<rparr>"
  proof -
    from Suc.prems have c: "c - n = Suc (c - Suc n)" by simp
    have "(replicate n x @ replicate (c - n) d)[n := x] = replicate (Suc n) x @ replicate (c - Suc n) d"
      unfolding c by (simp add: list_update_append replicate_app_Cons_same)
    moreover have "Suc n mod c = Suc n" using Suc.prems by simp
    moreover have "replicate n x @ [x] = replicate (Suc n) x"
      by (simp add: replicate_append_same)
    ultimately show ?thesis
      by (simp add: push_back_def Let_def del: replicate_Suc)
  qed
  finally show ?case .
qed

text \<open>
  C3. After any sequence of \<^verbatim>\<open>push_back\<close> and \<^verbatim>\<open>pop_front\<close> on the initial buffer, the
  number of resident items (successful pushes minus successful pops) is at most
  \<open>capacity - 1\<close>; it is zero exactly when \<open>head = tail\<close> and \<open>capacity - 1\<close>
  exactly when \<open>(head + 1) mod capacity = tail\<close>; and the next \<^verbatim>\<open>push_back\<close> fails
  exactly when it is \<open>capacity - 1\<close>.
\<close>

theorem ring_capacity_invariant:
  assumes "0 < c"
  shows "let s = ring_run c ops (ring_run_init c d);
             n = length (pushed s) - length (popped s)
         in length (popped s) \<le> length (pushed s)
          \<and> n \<le> c - 1
          \<and> n = length (resident c (buf s))
          \<and> (head (buf s) = tail (buf s) \<longleftrightarrow> n = 0)
          \<and> ((head (buf s) + 1) mod c = tail (buf s) \<longleftrightarrow> n = c - 1)
          \<and> (fst (push_back c x (buf s)) \<longleftrightarrow> n \<noteq> c - 1)"
proof -
  let ?s = "ring_run c ops (ring_run_init c d)"
  have inv: "ring_run_inv c ?s"
    using assms by (simp add: ring_run_inv_run ring_run_inv_init)
  then have wf: "ring_wf c (buf ?s)" and hist: "pushed ?s = popped ?s @ resident c (buf ?s)"
    by (simp_all add: ring_run_inv_def)
  from hist have "length (pushed ?s) = length (popped ?s) + length (resident c (buf ?s))"
    by (metis length_append)
  then have n: "length (pushed ?s) - length (popped ?s) = length (resident c (buf ?s))"
    and le: "length (popped ?s) \<le> length (pushed ?s)" by simp_all
  have b: "length (resident c (buf ?s)) \<le> c - 1" using assms by (rule resident_bound)
  have e: "head (buf ?s) = tail (buf ?s) \<longleftrightarrow> length (resident c (buf ?s)) = 0"
    using resident_empty_iff [OF wf] by auto
  have f: "(head (buf ?s) + 1) mod c = tail (buf ?s) \<longleftrightarrow> length (resident c (buf ?s)) = c - 1"
    using resident_full_iff [OF wf] by auto
  have p: "fst (push_back c x (buf ?s)) \<longleftrightarrow> (head (buf ?s) + 1) mod c \<noteq> tail (buf ?s)"
    by (simp add: push_back_def Let_def)
  show ?thesis
    unfolding Let_def n using le b e f p by simp
qed

theorem ring_capacity_invariant_witness:
  "(0::nat) < 256
   \<and> length (pushed (ring_run 256 (replicate 255 (Push 1)) (ring_run_init 256 (0::nat)))) = 255
   \<and> popped (ring_run 256 (replicate 255 (Push 1)) (ring_run_init 256 (0::nat))) = []
   \<and> head (buf (ring_run 256 (replicate 255 (Push 1)) (ring_run_init 256 (0::nat)))) = 255
   \<and> tail (buf (ring_run 256 (replicate 255 (Push 1)) (ring_run_init 256 (0::nat)))) = 0
   \<and> \<not> fst (push_back 256 9 (buf (ring_run 256 (replicate 255 (Push 1)) (ring_run_init 256 (0::nat)))))"
  using ring_capacity_invariant [of 256 "replicate 255 (Push 1)" "0::nat" 9]
    fill_run [of 255 256 "1::nat" "0::nat"]
  by simp

subsection \<open>First in, first out\<close>

text \<open>
  C4. After any sequence of \<^verbatim>\<open>push_back\<close> and \<^verbatim>\<open>pop_front\<close> on the initial buffer, the
  items popped so far are, in order, the first of the items pushed so far, and the resident
  items are the rest. When \<open>head = tail\<close>, \<^verbatim>\<open>pop_front\<close> returns false and leaves the
  buffer and the caller's variable as they were. Otherwise it returns true with the oldest
  item pushed and not yet popped, and removes it.
\<close>

theorem ring_fifo:
  assumes "0 < c"
  shows "let s = ring_run c ops (ring_run_init c d);
             k = length (popped s)
         in popped s = take k (pushed s)
          \<and> resident c (buf s) = drop k (pushed s)
          \<and> (head (buf s) = tail (buf s) \<longrightarrow>
                pop_front c v (buf s) = (False, v, buf s)
              \<and> popped (ring_run c (ops @ [Pop]) (ring_run_init c d)) = popped s)
          \<and> (head (buf s) \<noteq> tail (buf s) \<longrightarrow>
                k < length (pushed s)
              \<and> fst (pop_front c v (buf s))
              \<and> fst (snd (pop_front c v (buf s))) = pushed s ! k
              \<and> resident c (snd (snd (pop_front c v (buf s)))) = drop (Suc k) (pushed s)
              \<and> popped (ring_run c (ops @ [Pop]) (ring_run_init c d)) = popped s @ [pushed s ! k])"
proof -
  let ?s = "ring_run c ops (ring_run_init c d)"
  let ?k = "length (popped ?s)"
  let ?q = "buf ?s"
  have inv: "ring_run_inv c ?s"
    using assms by (simp add: ring_run_inv_run ring_run_inv_init)
  then have wf: "ring_wf c ?q" and hist: "pushed ?s = popped ?s @ resident c ?q"
    by (simp_all add: ring_run_inv_def)
  have a: "popped ?s = take ?k (pushed ?s)" and b: "resident c ?q = drop ?k (pushed ?s)"
    using hist [symmetric] by (simp_all only: append_eq_conv_conj)
  have e: "head ?q = tail ?q \<Longrightarrow> pop_front c v ?q = (False, v, ?q)
      \<and> popped (ring_op_step c Pop ?s) = popped ?s"
    by (simp add: pop_front_def)
  have f: "?k < length (pushed ?s)
      \<and> fst (pop_front c v ?q)
      \<and> fst (snd (pop_front c v ?q)) = pushed ?s ! ?k
      \<and> resident c (snd (snd (pop_front c v ?q))) = drop (Suc ?k) (pushed ?s)
      \<and> popped (ring_op_step c Pop ?s) = popped ?s @ [pushed ?s ! ?k]"
    if ne: "head ?q \<noteq> tail ?q"
  proof -
    from ne have ne': "tail ?q \<noteq> head ?q" by simp
    have r: "resident c ?q = data ?q ! tail ?q # resident c (?q\<lparr>tail := (tail ?q + 1) mod c\<rparr>)"
      using wf ne' by (rule resident_pop)
    have p: "pop_front c u ?q = (True, data ?q ! tail ?q, ?q\<lparr>tail := (tail ?q + 1) mod c\<rparr>)" for u
      using ne' by (simp add: pop_front_def)
    from hist r have h2: "pushed ?s = popped ?s @ data ?q ! tail ?q # resident c (?q\<lparr>tail := (tail ?q + 1) mod c\<rparr>)"
      by simp
    have split: "length ys < length xs \<and> xs ! length ys = z \<and> drop (Suc (length ys)) xs = zs"
      if "xs = ys @ z # zs" for xs ys zs :: "'a list" and z
      using that by simp
    note s = split [OF h2]
    from s have 1: "?k < length (pushed ?s)" by (rule conjunct1)
    from s have 2: "pushed ?s ! ?k = data ?q ! tail ?q" by (simp only:)
    from s have 3: "drop (Suc ?k) (pushed ?s) = resident c (?q\<lparr>tail := (tail ?q + 1) mod c\<rparr>)"
      by (simp only:)
    show ?thesis using 1 2 3 by (simp add: p)
  qed
  show ?thesis
    unfolding Let_def ring_run_snoc using a b e f by blast
qed

theorem ring_fifo_witness:
  "(0::nat) < 256
   \<and> popped (ring_run 256 [Push 1, Push 2, Pop, Push 3] (ring_run_init 256 (0::nat))) = [1]
   \<and> pushed (ring_run 256 [Push 1, Push 2, Pop, Push 3] (ring_run_init 256 (0::nat))) = [1, 2, 3]
   \<and> fst (snd (pop_front 256 0 (buf (ring_run 256 [Push 1, Push 2, Pop, Push 3] (ring_run_init 256 (0::nat)))))) = 2
   \<and> pop_front 256 5 (buf (ring_run 256 [Push 1, Pop] (ring_run_init 256 (0::nat))))
       = (False, 5, buf (ring_run 256 [Push 1, Pop] (ring_run_init 256 (0::nat))))"
  using ring_fifo [of 256 "[Push 1, Push 2, Pop, Push 3]" "0::nat" 0]
    ring_fifo [of 256 "[Push 1, Pop]" "0::nat" 5]
  by (simp add: ring_run_init_def ring_init_def push_back_def pop_front_def Let_def)

section \<open>Properties of the job system\<close>

text \<open>The definitions a concrete run unfolds.\<close>

lemmas sys_eval = caller_step_def worker_step_def Execute_def Dispatch_def Wait_def
  IsBusy_def Initialize_def static_init_def jobPool_capacity_def ring_init_def push_back_def
  pop_front_def Let_def groupCount_def jobGroup_body_def spawn_workers.simps Dispatch_loop.simps
  jobGroup_loop.simps

lemma run_append:
  "run (es @ es') s = (case run es s of None \<Rightarrow> None | Some s' \<Rightarrow> run es' s')"
  by (induction es arbitrary: s) (simp_all split: option.splits)

lemma worker_step_frame:
  assumes "worker_step i s = Some s'"
  shows "currentLabel s' = currentLabel s \<and> caller s' = caller s"
  using assms
  by (auto simp: worker_step_def Let_def split: if_splits pc.splits prod.splits bool.splits option.splits)

lemma caller_step_frame:
  assumes "caller_step s = Some s'"
  shows "currentLabel s' = currentLabel s \<and> finishedLabel s' = finishedLabel s
    \<and> workers s' = workers s \<and> invoked s' = invoked s"
  using assms
  by (auto simp: caller_step_def IsBusy_def split: caller.splits list.splits prod.splits bool.splits)

lemma caller_step_Waiting:
  assumes "caller s = Waiting" "caller_step s = Some s'"
  shows "(caller s' = Waiting \<and> s' = s \<and> finishedLabel s < currentLabel s)
       \<or> (caller s' = Idle \<and> s' = s\<lparr>caller := Idle\<rparr> \<and> \<not> finishedLabel s < currentLabel s)"
  using assms by (cases "finishedLabel s < currentLabel s") (auto simp: caller_step_def IsBusy_def)


subsection \<open>IsBusy\<close>

text \<open>
  C6. \<^verbatim>\<open>IsBusy\<close> returns true exactly when \<^verbatim>\<open>finishedLabel\<close> is strictly less than
  \<^verbatim>\<open>currentLabel\<close>, compared as unsigned 64-bit values, and the state after the call is
  the state before it.
\<close>

theorem IsBusy_reads_labels:
  "fst (IsBusy s) = (finishedLabel s < currentLabel s)
   \<and> fst (IsBusy s) = (unat (finishedLabel s) < unat (currentLabel s))
   \<and> snd (IsBusy s) = s"
  by (simp add: IsBusy_def word_less_nat_alt)

subsection \<open>Dispatch with nothing to do\<close>

text \<open>
  C9. \<^verbatim>\<open>Dispatch(0, g, f)\<close> and \<^verbatim>\<open>Dispatch(j, 0, f)\<close> return at once and leave the whole
  state as it was: both labels, the queue, the history of invocations, and the submitting
  thread, which is outside any call again and has nothing to push.
\<close>

theorem Dispatch_zero_noop:
  "Dispatch 0 g f s = s \<and> Dispatch j 0 f s = s
   \<and> step (Call_Dispatch 0 g f) s = (if caller s = Idle then Some s else None)
   \<and> step (Call_Dispatch j 0 f) s = (if caller s = Idle then Some s else None)"
  by (simp add: Dispatch_def)

subsection \<open>Wait\<close>



subsection \<open>Initialize\<close>

text \<open>
  C10. \<^verbatim>\<open>Initialize\<close> stores 0 into \<^verbatim>\<open>finishedLabel\<close> and leaves \<^verbatim>\<open>currentLabel\<close>, the
  queue and the submitting thread as they were. So in a state where the labels are equal
  and not zero, where \<^verbatim>\<open>IsBusy\<close> is false, \<^verbatim>\<open>IsBusy\<close> is true after \<^verbatim>\<open>Initialize\<close>.
\<close>

theorem Initialize_resets_finished_only:
  "finishedLabel (Initialize n s) = 0
   \<and> currentLabel (Initialize n s) = currentLabel s
   \<and> jobPool (Initialize n s) = jobPool s
   \<and> caller (Initialize n s) = caller s
   \<and> (finishedLabel s = currentLabel s \<and> 0 < currentLabel s
        \<longrightarrow> \<not> fst (IsBusy s) \<and> fst (IsBusy (Initialize n s)))"
  by (simp add: Initialize_def Let_def IsBusy_def)


theorem Initialize_resets_finished_only_witness:
  "finishedLabel (the (run [Call_Execute (Single 7), Caller_step, Caller_step,
        Worker_step 0, Worker_step 0, Worker_step 0] (Initialize 1 static_init))) = 1
   \<and> currentLabel (the (run [Call_Execute (Single 7), Caller_step, Caller_step,
        Worker_step 0, Worker_step 0, Worker_step 0] (Initialize 1 static_init))) = 1
   \<and> \<not> fst (IsBusy (the (run [Call_Execute (Single 7), Caller_step, Caller_step,
        Worker_step 0, Worker_step 0, Worker_step 0] (Initialize 1 static_init))))
   \<and> fst (IsBusy (Initialize 1 (the (run [Call_Execute (Single 7), Caller_step, Caller_step,
        Worker_step 0, Worker_step 0, Worker_step 0] (Initialize 1 static_init)))))"
  using Initialize_resets_finished_only [of 1 "the (run [Call_Execute (Single 7), Caller_step, Caller_step,
        Worker_step 0, Worker_step 0, Worker_step 0] (Initialize 1 static_init))"]
  by (simp add: sys_eval)

subsection \<open>The labels\<close>

lemma busy_count_update:
  "i < length ws \<Longrightarrow>
   length (filter P (ws[i := w])) + (if P (ws ! i) then 1 else 0)
     = length (filter P ws) + (if P w then 1 else 0)"
proof (induction ws arbitrary: i)
  case Nil
  then show ?case by simp
next
  case (Cons a ws)
  show ?case
  proof (cases i)
    case 0
    then show ?thesis by simp
  next
    case (Suc k)
    with Cons.prems have "k < length ws" by simp
    from Cons.IH [OF this] Suc show ?thesis by simp
  qed
qed

lemma busy_spawn: "filter busy (spawn_workers t n ws) = filter busy ws"
proof (induction t n ws rule: spawn_workers.induct)
  case (1 threadID n ws)
  show ?case
  proof (cases "threadID < n")
    case True
    have "filter busy (spawn_workers threadID n ws)
        = filter busy (spawn_workers (threadID + 1) n (ws @ [\<lparr>pc = Fetch, local_job = NoJob\<rparr>]))"
      using True by (subst spawn_workers.simps) simp
    also have "\<dots> = filter busy (ws @ [\<lparr>pc = Fetch, local_job = NoJob\<rparr>])"
      using "1.IH" [OF True] .
    also have "\<dots> = filter busy ws" by (simp add: busy_def)
    finally show ?thesis .
  next
    case False
    then show ?thesis by (subst spawn_workers.simps) simp
  qed
qed

lemma Dispatch_loop_eq:
  "Dispatch_loop jc gs f gc gi = map (\<lambda>k. jobGroup jc gs f (of_nat k)) [unat gi ..< unat gc]"
proof (induction jc gs f gc gi rule: Dispatch_loop.induct)
  case (1 jobCount groupSize job groupCount gi)
  show ?case
  proof (cases "gi < groupCount")
    case True
    then have lt: "unat gi < unat groupCount" by (simp add: word_less_nat_alt)
    have "Dispatch_loop jobCount groupSize job groupCount gi =
        jobGroup jobCount groupSize job gi # Dispatch_loop jobCount groupSize job groupCount (gi + 1)"
      using True by (subst Dispatch_loop.simps) simp
    also have "\<dots> = jobGroup jobCount groupSize job gi #
        map (\<lambda>k. jobGroup jobCount groupSize job (of_nat k)) [Suc (unat gi) ..< unat groupCount]"
      using "1.IH" [OF True] by (simp add: unat_inc_below [OF True])
    also have "\<dots> = map (\<lambda>k. jobGroup jobCount groupSize job (of_nat k)) [unat gi ..< unat groupCount]"
      using lt by (simp add: upt_conv_Cons)
    finally show ?thesis .
  next
    case False
    then have "\<not> unat gi < unat groupCount" by (simp add: word_less_nat_alt)
    with False show ?thesis by (subst Dispatch_loop.simps) simp
  qed
qed

lemma length_Dispatch_loop: "length (Dispatch_loop jc gs f gc 0) = unat gc"
  by (simp add: Dispatch_loop_eq)

lemma label_inv_init: "label_inv 0 (Initialize n static_init)"
  by (simp add: label_inv_def Initialize_def static_init_def Let_def unfinished_def
        busy_spawn resident_init ring_wf_init jobPool_capacity_def)


lemma of_nat_pred_Suc:
  "0 < u \<Longrightarrow> u \<le> n \<Longrightarrow> (of_nat (n - u) :: 'a::len word) + 1 = of_nat (n - (u - 1))"
proof -
  assume "0 < u" "u \<le> n"
  then have "n - (u - 1) = Suc (n - u)" by simp
  then show ?thesis by simp
qed

lemma label_inv_caller_step:
  assumes "caller_step s = Some s'" "label_inv n s"
  shows "label_inv n s'"
proof (cases "caller s")
  case Idle
  with assms show ?thesis by (simp add: caller_step_def)
next
  case Waiting
  from caller_step_Waiting [OF Waiting assms(1)] assms(2) Waiting
  show ?thesis by (auto simp: label_inv_def unfinished_def)
next
  case (Pushing js)
  show ?thesis
  proof (cases js)
    case Nil
    with Pushing assms show ?thesis
      by (auto simp: caller_step_def label_inv_def unfinished_def)
  next
    case (Cons j js')
    from assms(2) have wf: "ring_wf jobPool_capacity (jobPool s)" by (simp add: label_inv_def)
    show ?thesis
    proof (cases "(head (jobPool s) + 1) mod jobPool_capacity = tail (jobPool s)")
      case True
      then have "push_back jobPool_capacity j (jobPool s) = (False, jobPool s)"
        by (simp add: push_back_def)
      with Pushing Cons assms(1) have "s' = s" by (simp add: caller_step_def)
      with assms(2) show ?thesis by simp
    next
      case False
      then obtain q where q: "push_back jobPool_capacity j (jobPool s) = (True, q)"
        by (simp add: push_back_def Let_def)
      have r: "resident jobPool_capacity q = resident jobPool_capacity (jobPool s) @ [j]"
        using resident_push [OF wf False, of j] q by simp
      have wq: "ring_wf jobPool_capacity q" using ring_wf_push [OF wf, of j] q by simp
      from Pushing Cons assms(1) q have s': "s' = s\<lparr>jobPool := q, caller := Pushing js'\<rparr>"
        by (simp add: caller_step_def)
      have "unfinished s' = unfinished s"
        using s' r Pushing Cons by (simp add: unfinished_def)
      with assms(2) wq s' show ?thesis by (simp add: label_inv_def)
    qed
  qed
qed

lemma unfinished_workers_update:
  assumes "i < length (workers s)" "busy w \<longleftrightarrow> busy (workers s ! i)"
  shows "length (filter busy ((workers s)[i := w])) = length (filter busy (workers s))"
  using busy_count_update [OF assms(1), of busy w] assms(2) by simp

lemma label_inv_frame:
  assumes "label_inv n s" "jobPool s' = jobPool s" "currentLabel s' = currentLabel s"
    "finishedLabel s' = finishedLabel s" "unfinished s' = unfinished s"
  shows "label_inv n s'"
  using assms by (simp add: label_inv_def)

lemma label_inv_worker_Fetch:
  assumes st: "worker_step i s = Some s'" and inv: "label_inv n s"
    and i: "i < length (workers s)" and pc: "pc (workers s ! i) = Fetch"
  shows "label_inv n s'"
proof -
  let ?w = "workers s ! i"
  from inv have wf: "ring_wf jobPool_capacity (jobPool s)" by (simp add: label_inv_def)
  from pc have nb: "\<not> busy ?w" by (simp add: busy_def)
  note cnt = busy_count_update [OF i, of busy]
  show ?thesis
  proof (cases "tail (jobPool s) = head (jobPool s)")
    case True
    then have p: "pop_front jobPool_capacity (local_job ?w) (jobPool s) = (False, local_job ?w, jobPool s)"
      by (simp add: pop_front_def)
    have "worker_step i s = Some (s\<lparr>jobPool := jobPool s,
        workers := (workers s)[i := \<lparr>pc = Sleep, local_job = local_job ?w\<rparr>]\<rparr>)"
      unfolding worker_step_def Let_def using i pc p by simp
    with st have s': "s' = s\<lparr>jobPool := jobPool s,
        workers := (workers s)[i := \<lparr>pc = Sleep, local_job = local_job ?w\<rparr>]\<rparr>" by simp
    have "length (filter busy (workers s')) = length (filter busy (workers s))"
      unfolding s' using unfinished_workers_update [OF i, of "\<lparr>pc = Sleep, local_job = local_job ?w\<rparr>"] nb
      by (simp add: busy_def)
    then have eq: "unfinished s' = unfinished s" unfolding unfinished_def by (simp add: s')
    show ?thesis by (rule label_inv_frame [OF inv _ _ _ eq]) (simp_all add: s')
  next
    case False
    let ?q = "(jobPool s)\<lparr>tail := (tail (jobPool s) + 1) mod jobPool_capacity\<rparr>"
    let ?j = "data (jobPool s) ! tail (jobPool s)"
    have p: "pop_front jobPool_capacity (local_job ?w) (jobPool s) = (True, ?j, ?q)"
      using False by (simp add: pop_front_def)
    have "worker_step i s = Some (s\<lparr>jobPool := ?q,
        workers := (workers s)[i := \<lparr>pc = Exec, local_job = ?j\<rparr>]\<rparr>)"
      unfolding worker_step_def Let_def using i pc p by simp
    with st have s': "s' = s\<lparr>jobPool := ?q,
        workers := (workers s)[i := \<lparr>pc = Exec, local_job = ?j\<rparr>]\<rparr>" by simp
    have wq: "ring_wf jobPool_capacity ?q"
      using ring_wf_pop [OF wf, of "local_job ?w"] p by simp
    have r: "length (resident jobPool_capacity (jobPool s)) = Suc (length (resident jobPool_capacity ?q))"
      using resident_pop [OF wf False] by simp
    have "length (filter busy (workers s')) = Suc (length (filter busy (workers s)))"
      unfolding s' using cnt [of "\<lparr>pc = Exec, local_job = ?j\<rparr>"] nb by (simp add: busy_def)
    then have u: "unfinished s' = unfinished s" unfolding unfinished_def using r by (simp add: s')
    from inv have le: "unfinished s \<le> n" and f: "finishedLabel s = of_nat (n - unfinished s)"
      and cl: "currentLabel s = of_nat n"
      by (simp_all add: label_inv_def)
    have 1: "ring_wf jobPool_capacity (jobPool s')" using wq by (simp add: s')
    have 2: "currentLabel s' = of_nat n" using cl by (simp add: s')
    have 3: "finishedLabel s' = of_nat (n - unfinished s')" unfolding u using f by (simp add: s')
    show ?thesis unfolding label_inv_def using 1 2 3 le u by simp
  qed
qed

lemma label_inv_worker_Exec:
  assumes st: "worker_step i s = Some s'" and inv: "label_inv n s"
    and i: "i < length (workers s)" and pc: "pc (workers s ! i) = Exec"
  shows "label_inv n s'"
proof -
  let ?w = "workers s ! i"
  from st i pc obtain calls where
    s': "s' = s\<lparr>invoked := invoked s @ calls, workers := (workers s)[i := ?w\<lparr>pc := Finish\<rparr>]\<rparr>"
    unfolding worker_step_def Let_def by (cases "run_job (local_job ?w)") auto
  have "length (filter busy (workers s')) = length (filter busy (workers s))"
    unfolding s' using unfinished_workers_update [OF i, of "?w\<lparr>pc := Finish\<rparr>"] pc
    by (simp add: busy_def)
  then have eq: "unfinished s' = unfinished s" unfolding unfinished_def by (simp add: s')
  show ?thesis by (rule label_inv_frame [OF inv _ _ _ eq]) (simp_all add: s')
qed

lemma label_inv_worker_Sleep:
  assumes st: "worker_step i s = Some s'" and inv: "label_inv n s"
    and i: "i < length (workers s)" and pc: "pc (workers s ! i) = Sleep"
  shows "label_inv n s'"
proof -
  let ?w = "workers s ! i"
  from st i pc have s': "s' = s\<lparr>workers := (workers s)[i := ?w\<lparr>pc := Fetch\<rparr>]\<rparr>"
    unfolding worker_step_def Let_def by simp
  have "length (filter busy (workers s')) = length (filter busy (workers s))"
    unfolding s' using unfinished_workers_update [OF i, of "?w\<lparr>pc := Fetch\<rparr>"] pc
    by (simp add: busy_def)
  then have eq: "unfinished s' = unfinished s" unfolding unfinished_def by (simp add: s')
  show ?thesis by (rule label_inv_frame [OF inv _ _ _ eq]) (simp_all add: s')
qed

lemma label_inv_worker_Finish:
  assumes st: "worker_step i s = Some s'" and inv: "label_inv n s"
    and i: "i < length (workers s)" and pc: "pc (workers s ! i) = Finish"
  shows "label_inv n s'"
proof -
  let ?w = "workers s ! i"
  from pc have b: "busy ?w" by (simp add: busy_def)
  from st i pc have
    s': "s' = s\<lparr>finishedLabel := finishedLabel s + 1, workers := (workers s)[i := ?w\<lparr>pc := Fetch\<rparr>]\<rparr>"
    unfolding worker_step_def Let_def by simp
  have "Suc (length (filter busy (workers s'))) = length (filter busy (workers s))"
    unfolding s' using busy_count_update [OF i, of busy "?w\<lparr>pc := Fetch\<rparr>"] b by (simp add: busy_def)
  then have u: "unfinished s = Suc (unfinished s')" unfolding unfinished_def by (simp add: s')
  from inv have le: "unfinished s \<le> n" and f: "finishedLabel s = of_nat (n - unfinished s)"
    and cl: "currentLabel s = of_nat n" and wf: "ring_wf jobPool_capacity (jobPool s)"
    by (simp_all add: label_inv_def)
  from u have pos: "0 < unfinished s" and pred: "unfinished s - 1 = unfinished s'" by simp_all
  have "(of_nat (n - unfinished s) :: u64) + 1 = of_nat (n - (unfinished s - 1))"
    using pos le by (rule of_nat_pred_Suc)
  then have 3: "finishedLabel s' = of_nat (n - unfinished s')"
    unfolding pred using f by (simp add: s')
  have 1: "ring_wf jobPool_capacity (jobPool s')" using wf by (simp add: s')
  have 2: "currentLabel s' = of_nat n" using cl by (simp add: s')
  from le u have 4: "unfinished s' \<le> n" by simp
  show ?thesis unfolding label_inv_def using 1 2 3 4 by blast
qed

lemma label_inv_worker_step:
  assumes st: "worker_step i s = Some s'" and inv: "label_inv n s"
  shows "label_inv n s'"
proof -
  from st have i: "i < length (workers s)" by (simp add: worker_step_def split: if_splits)
  show ?thesis
    by (cases "pc (workers s ! i)")
      (rule label_inv_worker_Fetch [OF st inv i] label_inv_worker_Exec [OF st inv i]
         label_inv_worker_Finish [OF st inv i] label_inv_worker_Sleep [OF st inv i], assumption)+
qed

lemma label_inv_Execute:
  assumes c: "caller s = Idle" and inv: "label_inv n s"
  shows "label_inv (Suc n) (Execute j s)"
proof -
  have u: "unfinished (Execute j s) = Suc (unfinished s)"
    using c by (simp add: unfinished_def Execute_def)
  from inv have le: "unfinished s \<le> n" and f: "finishedLabel s = of_nat (n - unfinished s)"
    and cl: "currentLabel s = of_nat n" and wf: "ring_wf jobPool_capacity (jobPool s)"
    by (simp_all add: label_inv_def)
  have 1: "ring_wf jobPool_capacity (jobPool (Execute j s))" using wf by (simp add: Execute_def)
  have 2: "currentLabel (Execute j s) = of_nat (Suc n)" using cl by (simp add: Execute_def)
  have 3: "finishedLabel (Execute j s) = of_nat (Suc n - unfinished (Execute j s))"
    using f by (simp add: u) (simp add: Execute_def)
  show ?thesis unfolding label_inv_def using 1 2 3 le u by simp
qed

lemma label_inv_Dispatch:
  assumes c: "caller s = Idle" and inv: "label_inv n s" and nz: "\<not> (jc = 0 \<or> gs = 0)"
  shows "label_inv (n + unat (groupCount jc gs)) (Dispatch jc gs f s)"
proof -
  let ?g = "groupCount jc gs"
  let ?s = "Dispatch jc gs f s"
  have s': "?s = s\<lparr>currentLabel := currentLabel s + ucast ?g,
      caller := Pushing (Dispatch_loop jc gs f ?g 0)\<rparr>"
    using nz by (simp add: Dispatch_def)
  have u: "unfinished ?s = unfinished s + unat ?g"
    unfolding s' using c by (simp add: unfinished_def length_Dispatch_loop)
  from inv have le: "unfinished s \<le> n" and f: "finishedLabel s = of_nat (n - unfinished s)"
    and cl: "currentLabel s = of_nat n" and wf: "ring_wf jobPool_capacity (jobPool s)"
    by (simp_all add: label_inv_def)
  have 1: "ring_wf jobPool_capacity (jobPool ?s)" unfolding s' using wf by simp
  have "(ucast ?g :: u64) = of_nat (unat ?g)" by simp
  then have 2: "currentLabel ?s = of_nat (n + unat ?g)" unfolding s' using cl by simp
  have "n + unat ?g - unfinished ?s = n - unfinished s" unfolding u by simp
  then have 3: "finishedLabel ?s = of_nat (n + unat ?g - unfinished ?s)"
    using f by (simp add: s')
  have 4: "unfinished ?s \<le> n + unat ?g" unfolding u using le by simp
  show ?thesis unfolding label_inv_def using 1 2 3 4 by blast
qed

lemma label_inv_Wait:
  assumes c: "caller s = Idle" and inv: "label_inv n s"
  shows "label_inv n (Wait s)"
proof -
  have "unfinished (Wait s) = unfinished s" using c by (simp add: unfinished_def Wait_def)
  with inv show ?thesis by (simp add: label_inv_def) (simp add: Wait_def)
qed

lemma label_inv_step:
  assumes "step e s = Some s'" "label_inv n s"
  shows "label_inv (n + submits e) s'"
proof (cases e)
  case (Call_Execute j)
  with assms(1) have c: "caller s = Idle" and s': "s' = Execute j s" by (auto split: if_splits)
  from label_inv_Execute [OF c assms(2), of j] show ?thesis by (simp add: s' Call_Execute)
next
  case (Call_Dispatch jc gs f)
  with assms(1) have c: "caller s = Idle" and s': "s' = Dispatch jc gs f s" by (auto split: if_splits)
  show ?thesis
  proof (cases "jc = 0 \<or> gs = 0")
    case True
    then have "Dispatch jc gs f s = s" by (simp add: Dispatch_def)
    with True assms(2) show ?thesis by (simp add: s' Call_Dispatch)
  next
    case False
    from label_inv_Dispatch [OF c assms(2) False, of f] False
    show ?thesis by (simp add: s' Call_Dispatch)
  qed
next
  case Call_Wait
  with assms(1) have c: "caller s = Idle" and s': "s' = Wait s" by (auto split: if_splits)
  from label_inv_Wait [OF c assms(2)] show ?thesis by (simp add: s' Call_Wait)
next
  case Caller_step
  with assms label_inv_caller_step show ?thesis by simp
next
  case (Worker_step i)
  with assms label_inv_worker_step show ?thesis by simp
qed

lemma label_inv_run:
  "run es s = Some s' \<Longrightarrow> label_inv n s \<Longrightarrow> label_inv (n + submitted_total es) s'"
proof (induction es arbitrary: s n)
  case Nil
  then show ?case by (simp add: submitted_total_def)
next
  case (Cons e es)
  from Cons.prems(1) obtain s1 where s1: "step e s = Some s1" and r: "run es s1 = Some s'"
    by (auto split: option.splits)
  from Cons.IH [OF r label_inv_step [OF s1 Cons.prems(2)]]
  show ?case by (simp add: submitted_total_def add.assoc)
qed

lemma length_spawn_workers:
  "length (spawn_workers t n ws) = length ws + (unat n - unat t)"
proof (induction t n ws rule: spawn_workers.induct)
  case (1 threadID n ws)
  show ?case
  proof (cases "threadID < n")
    case True
    then have lt: "unat threadID < unat n" by (simp add: word_less_nat_alt)
    have "length (spawn_workers threadID n ws)
        = length (spawn_workers (threadID + 1) n (ws @ [\<lparr>pc = Fetch, local_job = NoJob\<rparr>]))"
      using True by (subst spawn_workers.simps) simp
    also have "\<dots> = length (ws @ [\<lparr>pc = Fetch, local_job = NoJob\<rparr>]) + (unat n - unat (threadID + 1))"
      using "1.IH" [OF True] .
    also have "\<dots> = length ws + (unat n - unat threadID)"
      using lt by (simp add: unat_inc_below [OF True])
    finally show ?thesis .
  next
    case False
    then have "\<not> unat threadID < unat n" by (simp add: word_less_nat_alt)
    with False show ?thesis by (subst spawn_workers.simps) simp
  qed
qed

lemma unat_u32_bound: "unat (w :: u32) < 2 ^ 32"
  using unsigned_less [of w, where 'a = nat] by simp

lemma size_inv_init: "size_inv (Initialize n static_init)"
  using unat_u32_bound [of "max 1 n"]
  by (simp add: size_inv_def Initialize_def static_init_def Let_def length_spawn_workers)

lemma worker_step_length:
  assumes "worker_step i s = Some s'"
  shows "length (workers s') = length (workers s)"
proof -
  from assms have i: "i < length (workers s)" by (simp add: worker_step_def split: if_splits)
  show ?thesis
  proof (cases "pc (workers s ! i)")
    case Fetch
    with assms i show ?thesis
      by (cases "tail (jobPool s) = head (jobPool s)")
         (auto simp: worker_step_def Let_def pop_front_def)
  next
    case Exec
    with assms i show ?thesis
      by (cases "run_job (local_job (workers s ! i))") (auto simp: worker_step_def Let_def)
  next
    case Finish
    with assms i show ?thesis by (auto simp: worker_step_def Let_def)
  next
    case Sleep
    with assms i show ?thesis by (auto simp: worker_step_def Let_def)
  qed
qed

lemma caller_step_pending:
  assumes "caller_step s = Some s'"
  shows "pending (caller s') \<le> pending (caller s)"
proof (cases "caller s")
  case Idle
  with assms show ?thesis by (simp add: caller_step_def)
next
  case Waiting
  from caller_step_Waiting [OF Waiting assms] Waiting show ?thesis by auto
next
  case (Pushing js)
  show ?thesis
  proof (cases js)
    case Nil
    with Pushing assms show ?thesis by (auto simp: caller_step_def)
  next
    case (Cons j js')
    with Pushing assms show ?thesis
      by (cases "(head (jobPool s) + 1) mod jobPool_capacity = tail (jobPool s)")
         (auto simp: caller_step_def push_back_def Let_def)
  qed
qed

lemma size_inv_step:
  assumes st: "step e s = Some s'" and inv: "size_inv s"
  shows "size_inv s'"
proof (cases e)
  case (Call_Execute j)
  with st have "s' = Execute j s" by (auto split: if_splits)
  with inv show ?thesis by (simp add: size_inv_def Execute_def)
next
  case (Call_Dispatch jc gs f)
  with st have s': "s' = Dispatch jc gs f s" by (auto split: if_splits)
  show ?thesis
  proof (cases "jc = 0 \<or> gs = 0")
    case True
    with s' inv show ?thesis by (simp add: Dispatch_def)
  next
    case False
    with s' inv unat_u32_bound [of "groupCount jc gs"] show ?thesis
      by (simp add: size_inv_def Dispatch_def length_Dispatch_loop)
  qed
next
  case Call_Wait
  with st have "s' = Wait s" by (auto split: if_splits)
  with inv show ?thesis by (simp add: size_inv_def Wait_def)
next
  case Caller_step
  with st have cs: "caller_step s = Some s'" by simp
  from caller_step_pending [OF cs] caller_step_frame [OF cs] inv show ?thesis
    by (simp add: size_inv_def)
next
  case (Worker_step i)
  with st have ws: "worker_step i s = Some s'" by simp
  from worker_step_length [OF ws] worker_step_frame [OF ws] inv show ?thesis
    by (simp add: size_inv_def)
qed

lemma size_inv_run: "run es s = Some s' \<Longrightarrow> size_inv s \<Longrightarrow> size_inv s'"
proof (induction es arbitrary: s)
  case Nil
  then show ?case by simp
next
  case (Cons e es)
  from Cons.prems(1) obtain s1 where s1: "step e s = Some s1" and r: "run es s1 = Some s'"
    by (auto split: option.splits)
  from Cons.IH [OF r size_inv_step [OF s1 Cons.prems(2)]] show ?case .
qed

lemma unfinished_small:
  assumes "size_inv s"
  shows "unfinished s < 2 ^ 64"
proof -
  have a: "length (resident jobPool_capacity (jobPool s)) \<le> 255"
    using resident_bound [of jobPool_capacity "jobPool s"] by (simp add: jobPool_capacity_def)
  have b: "length (filter busy (workers s)) \<le> length (workers s)" by (rule length_filter_le)
  from assms have c: "length (workers s) < 2 ^ 32" and d: "pending (caller s) < 2 ^ 32"
    by (simp_all add: size_inv_def)
  have "unfinished s < 256 + 2 ^ 32 + 2 ^ 32"
    unfolding unfinished_def using a b c d by linarith
  also have "\<dots> < (2::nat) ^ 64" by simp
  finally show ?thesis .
qed

lemma labels_equal_iff:
  assumes u: "u \<le> n" and small: "u < 2 ^ 64"
  shows "(of_nat (n - u) :: u64) = of_nat n \<longleftrightarrow> u = 0"
proof
  assume eq: "(of_nat (n - u) :: u64) = of_nat n"
  have "(of_nat n :: u64) = of_nat (n - u) + of_nat u" using u by (simp flip: of_nat_add)
  with eq have "(of_nat u :: u64) = 0" by simp
  then have "unat (of_nat u :: u64) = 0" by simp
  then have "u mod 2 ^ 64 = 0" by (simp add: unat_of_nat)
  with small show "u = 0" by simp
next
  assume "u = 0"
  then show "(of_nat (n - u) :: u64) = of_nat n" by simp
qed

lemma labels_of_inv:
  assumes inv: "label_inv n s" and size: "size_inv s"
  shows "(finishedLabel s = currentLabel s \<longleftrightarrow> idle s)
    \<and> (n < 2 ^ 64 \<longrightarrow>
          finishedLabel s \<le> currentLabel s
        \<and> unat (currentLabel s) = n
        \<and> unat (currentLabel s) - unat (finishedLabel s) = unfinished s)"
proof -
  from inv have c: "currentLabel s = of_nat n" and le: "unfinished s \<le> n"
    and f: "finishedLabel s = of_nat (n - unfinished s)"
    by (simp_all add: label_inv_def)
  have small: "unfinished s < 2 ^ 64" using size by (rule unfinished_small)
  have 1: "finishedLabel s = currentLabel s \<longleftrightarrow> idle s"
    unfolding c f idle_def using le small by (rule labels_equal_iff)
  have 2: "finishedLabel s \<le> currentLabel s
        \<and> unat (currentLabel s) = n
        \<and> unat (currentLabel s) - unat (finishedLabel s) = unfinished s"
    if nowrap: "n < 2 ^ 64"
  proof -
    have uc: "unat (currentLabel s) = n"
      using nowrap c by (simp add: unat_of_nat)
    have "n - unfinished s < 2 ^ 64" using nowrap by simp
    then have uf: "unat (finishedLabel s) = n - unfinished s"
      using f by (simp add: unat_of_nat)
    have "finishedLabel s \<le> currentLabel s"
      by (simp add: word_le_nat_alt uc uf)
    then show ?thesis using uc uf le by simp
  qed
  show ?thesis using 1 2 by blast
qed

text \<open>
  C7, as it holds. There is one submitting thread: its calls of \<^verbatim>\<open>Execute\<close>,
  \<^verbatim>\<open>Dispatch\<close> and \<^verbatim>\<open>Wait\<close> do not overlap, and no job body calls the job system. In
  every state reached from the initial state by steps of that thread and of the workers,
  in any order: the labels are equal exactly when nothing is announced and not yet pushed,
  queued, or popped and not yet counted; and, when the calls have submitted fewer than
  \<open>2^64\<close> units in all, \<^verbatim>\<open>finishedLabel \<le> currentLabel\<close>, \<^verbatim>\<open>currentLabel\<close> is the number
  of units submitted and the difference of the labels is the number of unfinished units.
\<close>

theorem labels_invariant:
  assumes r: "run es (Initialize numCores static_init) = Some s"
  shows "(finishedLabel s = currentLabel s \<longleftrightarrow> idle s)
    \<and> (submitted_total es < 2 ^ 64 \<longrightarrow>
          finishedLabel s \<le> currentLabel s
        \<and> unat (currentLabel s) = submitted_total es
        \<and> unat (currentLabel s) - unat (finishedLabel s) = unfinished s)"
proof -
  from label_inv_run [OF r label_inv_init] have "label_inv (submitted_total es) s" by simp
  moreover from size_inv_run [OF r size_inv_init] have "size_inv s" .
  ultimately show ?thesis by (rule labels_of_inv)
qed

theorem labels_invariant_witness:
  "submitted_total [Call_Dispatch 10 3 0, Caller_step, Caller_step, Caller_step, Caller_step,
        Caller_step, Worker_step 0, Worker_step 0, Worker_step 0] = 4
   \<and> currentLabel (the (run [Call_Dispatch 10 3 0, Caller_step, Caller_step, Caller_step,
        Caller_step, Caller_step, Worker_step 0, Worker_step 0, Worker_step 0]
        (Initialize 1 static_init))) = 4
   \<and> finishedLabel (the (run [Call_Dispatch 10 3 0, Caller_step, Caller_step, Caller_step,
        Caller_step, Caller_step, Worker_step 0, Worker_step 0, Worker_step 0]
        (Initialize 1 static_init))) = 1
   \<and> unfinished (the (run [Call_Dispatch 10 3 0, Caller_step, Caller_step, Caller_step,
        Caller_step, Caller_step, Worker_step 0, Worker_step 0, Worker_step 0]
        (Initialize 1 static_init))) = 3
   \<and> \<not> idle (the (run [Call_Dispatch 10 3 0, Caller_step, Caller_step, Caller_step,
        Caller_step, Caller_step, Worker_step 0, Worker_step 0, Worker_step 0]
        (Initialize 1 static_init)))"
  using labels_invariant [of "[Call_Dispatch 10 3 0, Caller_step, Caller_step, Caller_step,
        Caller_step, Caller_step, Worker_step 0, Worker_step 0, Worker_step 0]" 1
      "the (run [Call_Dispatch 10 3 0, Caller_step, Caller_step, Caller_step,
        Caller_step, Caller_step, Worker_step 0, Worker_step 0, Worker_step 0]
        (Initialize 1 static_init))"]
  by (simp add: sys_eval submitted_total_def idle_def)

text \<open>The wrap of \<^verbatim>\<open>currentLabel\<close>: rounds of one job, each submitted and completed before
  the next.\<close>

lemma Suc_mod_neq: "h < c \<Longrightarrow> 1 < c \<Longrightarrow> Suc h mod c \<noteq> h"
  by (auto simp: mod_Suc)

lemma round_settled:
  assumes "settled k s"
  shows "\<exists>s'. run one_job_round s = Some s' \<and> settled (Suc k) s'"
proof -
  let ?h = "head (jobPool s)"
  let ?c = jobPool_capacity
  from assms have c: "caller s = Idle" and l: "length (workers s) = 1"
    and pc: "pc (workers s ! 0) = Fetch" and wf: "ring_wf ?c (jobPool s)"
    and ht: "tail (jobPool s) = ?h" and cl: "currentLabel s = of_nat k"
    and fl: "finishedLabel s = of_nat k"
    by (simp_all add: settled_def)
  from wf have h: "?h < ?c" and ld: "length (data (jobPool s)) = ?c" by (simp_all add: ring_wf_def)
  have c1: "1 < ?c" by (simp add: jobPool_capacity_def)
  have ne: "Suc ?h mod ?c \<noteq> ?h" using h c1 by (rule Suc_mod_neq)
  let ?q = "(jobPool s)\<lparr>data := (data (jobPool s))[?h := Single 0], head := Suc ?h mod ?c\<rparr>"
  let ?q' = "?q\<lparr>tail := Suc ?h mod ?c\<rparr>"
  let ?s1 = "Execute (Single 0) s"
  let ?s2 = "?s1\<lparr>jobPool := ?q, caller := Pushing []\<rparr>"
  let ?s3 = "?s2\<lparr>caller := Idle\<rparr>"
  let ?s4 = "?s3\<lparr>jobPool := ?q', workers := (workers s)[0 := \<lparr>pc = Exec, local_job = Single 0\<rparr>]\<rparr>"
  let ?s5 = "?s4\<lparr>invoked := invoked s @ [Plain 0],
      workers := (workers s)[0 := \<lparr>pc = Finish, local_job = Single 0\<rparr>]\<rparr>"
  let ?s6 = "?s5\<lparr>finishedLabel := finishedLabel s + 1,
      workers := (workers s)[0 := \<lparr>pc = Fetch, local_job = Single 0\<rparr>]\<rparr>"
  have 1: "step (Call_Execute (Single 0)) s = Some ?s1" using c by simp
  have pb: "push_back ?c (Single 0) (jobPool s) = (True, ?q)"
    using ne ht by (simp add: push_back_def Let_def)
  have 2: "step Caller_step ?s1 = Some ?s2"
    using pb by (simp add: caller_step_def Execute_def)
  have 3: "step Caller_step ?s2 = Some ?s3" by (simp add: caller_step_def)
  have pf: "pop_front ?c j ?q = (True, Single 0, ?q')" for j
    using ne ht h ld by (simp add: pop_front_def)
  have 4: "step (Worker_step 0) ?s3 = Some ?s4"
    using l pc pf by (simp add: worker_step_def Let_def Execute_def)
  have 5: "step (Worker_step 0) ?s4 = Some ?s5"
    using l by (simp add: worker_step_def Let_def Execute_def)
  have 6: "step (Worker_step 0) ?s5 = Some ?s6"
    using l by (simp add: worker_step_def Let_def Execute_def)
  have r: "run one_job_round s = Some ?s6"
    unfolding one_job_round_def by (simp only: run.simps 1 2 3 4 5 6 option.case)
  have "settled (Suc k) ?s6"
    using l h ld cl fl by (simp add: settled_def Execute_def ring_wf_def)
  with r show ?thesis by blast
qed

lemma rounds_settled:
  assumes "settled 0 s"
  shows "\<exists>s'. run (concat (replicate k one_job_round)) s = Some s' \<and> settled k s'"
proof (induction k)
  case 0
  with assms show ?case by simp
next
  case (Suc k)
  then obtain s1 where r1: "run (concat (replicate k one_job_round)) s = Some s1" and s1: "settled k s1"
    by blast
  from round_settled [OF s1] obtain s2 where r2: "run one_job_round s1 = Some s2"
    and s2: "settled (Suc k) s2" by blast
  have "replicate (Suc k) one_job_round = replicate k one_job_round @ [one_job_round]"
    by (simp add: replicate_append_same)
  then have "concat (replicate (Suc k) one_job_round) = concat (replicate k one_job_round) @ one_job_round"
    by (simp only: concat_append concat.simps append_Nil2)
  then have "run (concat (replicate (Suc k) one_job_round)) s = Some s2"
    using r1 r2 by (simp add: run_append del: replicate_Suc)
  with s2 show ?case by blast
qed

lemma settled_init: "settled 0 (Initialize 1 static_init)"
  by (simp add: settled_def sys_eval ring_wf_def)

lemma wrapped_run:
  "map_option labels_ordered
     (run (concat (replicate (2 ^ 64 - 1) one_job_round) @ [Call_Execute (Single 0)])
        (Initialize 1 static_init)) = Some False"
proof -
  from rounds_settled [OF settled_init, of "2 ^ 64 - 1"] obtain s where
    r: "run (concat (replicate (2 ^ 64 - 1) one_job_round)) (Initialize 1 static_init) = Some s"
    and s: "settled (2 ^ 64 - 1) s" by blast
  from s have c: "caller s = Idle" and cl: "currentLabel s = of_nat (2 ^ 64 - 1)"
    and fl: "finishedLabel s = of_nat (2 ^ 64 - 1)" by (simp_all add: settled_def)
  have m: "(of_nat (2 ^ 64 - 1) :: u64) = - 1" by simp
  have "run (concat (replicate (2 ^ 64 - 1) one_job_round) @ [Call_Execute (Single 0)])
        (Initialize 1 static_init) = Some (Execute (Single 0) s)"
    using r c by (simp add: run_append)
  moreover have "\<not> labels_ordered (Execute (Single 0) s)"
    unfolding labels_ordered_def Execute_def using cl fl m by simp
  ultimately show ?thesis by simp
qed

text \<open>The lost update: the run \<open>lost_update\<close> of two submitting threads, and the state
  three steps before its end, when the worker has counted the first job.\<close>

lemmas msys_eval = minit_def load_label_def submitter_step_def outside_def lost_update_def

lemma lost_update_run:
  "mrun lost_update (minit 2 1) =
     Some \<lparr>globals =
             \<lparr>numThreads = 1,
                jobPool = \<lparr>data = (replicate 256 NoJob)[0 := Single 1, 1 := Single 2],
                            head = 2, tail = 2\<rparr>,
                currentLabel = 1, finishedLabel = 2,
                workers = [\<lparr>pc = Fetch, local_job = Single 2\<rparr>],
                caller = Idle, invoked = [Plain 1, Plain 2]\<rparr>,
           submitters = [At Idle, At Idle]\<rparr>"
  by (simp add: msys_eval sys_eval numeral_2_eq_2)

lemma lost_update_before_end:
  "mrun (take 11 lost_update) (minit 2 1) =
     Some \<lparr>globals =
             \<lparr>numThreads = 1,
                jobPool = \<lparr>data = (replicate 256 NoJob)[0 := Single 1, 1 := Single 2],
                            head = 2, tail = 1\<rparr>,
                currentLabel = 1, finishedLabel = 1,
                workers = [\<lparr>pc = Fetch, local_job = Single 1\<rparr>],
                caller = Idle, invoked = [Plain 1]\<rparr>,
           submitters = [At Idle, At Idle]\<rparr>"
  by (simp add: msys_eval sys_eval numeral_2_eq_2)

text \<open>
  C7, as stated for any interleaving, fails twice. With two submitting threads an
  update of \<^verbatim>\<open>currentLabel\<close> is lost: after two jobs \<^verbatim>\<open>currentLabel\<close> is 1 and
  \<^verbatim>\<open>finishedLabel\<close> is 2, and three steps earlier the labels are equal while the second
  job is still queued. With one submitting thread \<^verbatim>\<open>currentLabel\<close> wraps: after
  \<open>2^64 - 1\<close> jobs submitted and completed one at a time both labels are \<open>2^64 - 1\<close>,
  and the next \<^verbatim>\<open>Execute\<close> makes \<^verbatim>\<open>currentLabel\<close> zero, below \<^verbatim>\<open>finishedLabel\<close>.
\<close>

theorem labels_counterexample:
  "map_option (labels_ordered \<circ> globals) (mrun lost_update (minit 2 1)) = Some False
   \<and> map_option (labels_equal \<circ> globals) (mrun (take 11 lost_update) (minit 2 1)) = Some True
   \<and> map_option (idle \<circ> globals) (mrun (take 11 lost_update) (minit 2 1)) = Some False
   \<and> map_option labels_ordered
       (run (concat (replicate (2 ^ 64 - 1) one_job_round) @ [Call_Execute (Single 0)])
          (Initialize 1 static_init)) = Some False"
  unfolding lost_update_run lost_update_before_end wrapped_run
  by (simp add: labels_ordered_def labels_equal_def idle_def unfinished_def resident_def
        jobPool_capacity_def word_le_nat_alt)

text \<open>The program with several submitting threads, run with one, is the program with one
  submitting thread: every run of it is a run of \<open>run\<close>, with the same labels, queue and
  workers and the same units submitted (the load of \<^verbatim>\<open>currentLabel += k\<close> is a step of
  its own here, and the units it announces are counted when it is made).\<close>

lemma announces_Execute: "announces (Call_Execute j) 1 [j]"
  by (simp add: announces_def Execute_def)

lemma unat_ucast_u32: "unat (ucast (w :: u32) :: u64) = unat w"
proof -
  have "(ucast w :: u64) = of_nat (unat w)" by simp
  then have "unat (ucast w :: u64) = unat w mod 2 ^ 64" by (simp only: unat_of_nat) simp
  moreover have "unat w < 2 ^ 64" using unat_u32_bound [of w] by simp
  ultimately show ?thesis by simp
qed

lemma announces_Dispatch:
  "\<not> (jc = 0 \<or> gs = 0) \<Longrightarrow>
   announces (Call_Dispatch jc gs f) (ucast (groupCount jc gs))
     (Dispatch_loop jc gs f (groupCount jc gs) 0)"
  by (simp add: announces_def Dispatch_def unat_ucast_u32)

lemma worker_step_caller_update:
  "worker_step i (g\<lparr>caller := c\<rparr>) = map_option (\<lambda>g'. g'\<lparr>caller := c\<rparr>) (worker_step i g)"
proof (cases "i < length (workers g)")
  case False
  then show ?thesis by (simp add: worker_step_def)
next
  case True
  show ?thesis
  proof (cases "pc (workers g ! i)")
    case Fetch
    with True show ?thesis
      by (cases "tail (jobPool g) = head (jobPool g)")
         (simp_all add: worker_step_def Let_def pop_front_def)
  next
    case Exec
    with True show ?thesis
      by (cases "run_job (local_job (workers g ! i))") (simp_all add: worker_step_def Let_def)
  next
    case Finish
    with True show ?thesis by (simp add: worker_step_def Let_def)
  next
    case Sleep
    with True show ?thesis by (simp add: worker_step_def Let_def)
  qed
qed

lemma run_snoc_step:
  "run es s0 = Some s \<Longrightarrow> step e s = Some s' \<Longrightarrow> run (es @ [e]) s0 = Some s'"
  by (simp add: run_append)

lemma submitted_total_snoc: "submitted_total (es @ [e]) = submitted_total es + submits e"
  by (simp add: submitted_total_def)


lemma bridgedI:
  assumes "one_inv s'" "run es (Initialize nc static_init) = Some (single s')"
    "submitted_total es + owed (submitters s' ! 0) = n"
  shows "bridged nc n s'"
  using assms unfolding bridged_def by blast

lemma bridged_load:
  assumes b: "bridged nc n s" and out: "outside t s" and a: "announces e k js"
  shows "bridged nc (n + unat k) (load_label t k js s)"
proof -
  from b have inv: "one_inv s" by (simp add: bridged_def)
  then have l: "length (submitters s) = 1" and c: "caller (globals s) = Idle"
    by (simp_all add: one_inv_def)
  from out l have t: "t = 0" and sub: "submitters s ! 0 = At Idle" by (auto simp: outside_def)
  let ?s' = "load_label t k js s"
  have sub': "submitters ?s' ! 0 = Adding (currentLabel (globals s)) k js"
    using l t by (simp add: load_label_def)
  have g': "globals ?s' = globals s" by (simp add: load_label_def)
  have 1: "one_inv ?s'"
    unfolding one_inv_def using l c a by (auto simp: sub' g') (simp add: load_label_def)
  have 2: "single ?s' = single s" by (simp add: single_def sub sub' g')
  from b obtain es where r: "run es (Initialize nc static_init) = Some (single s)"
    and tot: "submitted_total es + owed (submitters s ! 0) = n"
    unfolding bridged_def by blast
  show ?thesis
    by (rule bridgedI [OF 1, of es]) (use r tot in \<open>simp_all add: 2 sub sub'\<close>)
qed

lemma bridged_step:
  assumes b: "bridged nc n s" and st: "mstep e s = Some s'"
  shows "bridged nc (n + msubmits e) s'"
proof -
  from b have inv: "one_inv s" by (simp add: bridged_def)
  then have l: "length (submitters s) = 1" and c: "caller (globals s) = Idle"
    and add: "\<And>tmp k js. submitters s ! 0 = Adding tmp k js \<Longrightarrow>
        tmp = currentLabel (globals s) \<and> (\<exists>e. announces e k js)"
    by (simp_all add: one_inv_def)
  from b obtain es where r: "run es (Initialize nc static_init) = Some (single s)"
    and tot: "submitted_total es + owed (submitters s ! 0) = n"
    unfolding bridged_def by blast
  show ?thesis
  proof (cases e)
    case (Execute_by t j)
    with st have out: "outside t s" and s': "s' = load_label t 1 [j] s"
      by (auto split: if_splits)
    from bridged_load [OF b out announces_Execute, of j] show ?thesis
      by (simp add: s' Execute_by)
  next
    case (Dispatch_by t jc gs f)
    with st have out: "outside t s" by (auto split: if_splits)
    show ?thesis
    proof (cases "jc = 0 \<or> gs = 0")
      case True
      with st Dispatch_by out have "s' = s" by simp
      with b True show ?thesis by (simp add: Dispatch_by)
    next
      case False
      with st Dispatch_by out have s': "s' = load_label t (ucast (groupCount jc gs))
          (Dispatch_loop jc gs f (groupCount jc gs) 0) s" by simp
      from bridged_load [OF b out announces_Dispatch [OF False, of f]] False show ?thesis
        by (simp add: s' Dispatch_by unat_ucast_u32)
    qed
  next
    case (Wait_by t)
    with st have out: "outside t s" and s': "s' = s\<lparr>submitters := (submitters s)[t := At Waiting]\<rparr>"
      by (auto split: if_splits)
    from out l have t: "t = 0" and sub: "submitters s ! 0 = At Idle" by (auto simp: outside_def)
    have sub': "submitters s' ! 0 = At Waiting" using l t by (simp add: s')
    have g': "globals s' = globals s" by (simp add: s')
    have 1: "one_inv s'" unfolding one_inv_def using l c by (simp add: sub' g') (simp add: s')
    have "step Call_Wait (single s) = Some (single s')"
      by (simp add: single_def sub sub' g' Wait_def)
    from run_snoc_step [OF r this] have 2: "run (es @ [Call_Wait]) (Initialize nc static_init) = Some (single s')" .
    show ?thesis
      by (rule bridgedI [OF 1 2]) (use tot in \<open>simp add: submitted_total_snoc sub sub' Wait_by\<close>)
  next
    case (Submitter_step t)
    with st have ss: "submitter_step t s = Some s'" by simp
    then have "t < length (submitters s)" by (simp add: submitter_step_def split: if_splits)
    with l have t: "t = 0" by simp
    show ?thesis
    proof (cases "submitters s ! 0")
      case (Adding tmp k js)
      from add [OF Adding] obtain ev where tmp: "tmp = currentLabel (globals s)"
        and a: "announces ev k js" by blast
      from ss t l Adding have s': "s' = s\<lparr>globals := (globals s)\<lparr>currentLabel := tmp + k\<rparr>,
          submitters := (submitters s)[0 := At (Pushing js)]\<rparr>"
        by (simp add: submitter_step_def)
      have sub': "submitters s' ! 0 = At (Pushing js)" using l by (simp add: s')
      have g': "globals s' = (globals s)\<lparr>currentLabel := tmp + k\<rparr>" by (simp add: s')
      have 1: "one_inv s'" unfolding one_inv_def using l c by (simp add: sub' g') (simp add: s')
      have ci: "caller (single s) = Idle" by (simp add: single_def Adding)
      from a ci have "step ev (single s)
          = Some ((single s)\<lparr>currentLabel := currentLabel (single s) + k, caller := Pushing js\<rparr>)"
        unfolding announces_def by blast
      also have "(single s)\<lparr>currentLabel := currentLabel (single s) + k, caller := Pushing js\<rparr>
          = single s'"
        by (simp add: single_def sub' g' tmp)
      finally have "step ev (single s) = Some (single s')" .
      from run_snoc_step [OF r this]
      have 2: "run (es @ [ev]) (Initialize nc static_init) = Some (single s')" .
      from a have sk: "submits ev = unat k" by (simp add: announces_def)
      show ?thesis
        by (rule bridgedI [OF 1 2])
           (use tot in \<open>simp add: submitted_total_snoc sk Adding sub' Submitter_step\<close>)
    next
      case (At cl)
      from ss t l At obtain g1 where cs: "caller_step ((globals s)\<lparr>caller := cl\<rparr>) = Some g1"
        and s': "s' = s\<lparr>globals := g1\<lparr>caller := Idle\<rparr>,
            submitters := (submitters s)[0 := At (caller g1)]\<rparr>"
        by (auto simp: submitter_step_def split: option.splits)
      have sub': "submitters s' ! 0 = At (caller g1)" using l by (simp add: s')
      have g': "globals s' = g1\<lparr>caller := Idle\<rparr>" by (simp add: s')
      have 1: "one_inv s'" unfolding one_inv_def using l by (simp add: sub' g') (simp add: s')
      have "single s' = g1" by (simp add: single_def sub' g')
      moreover have "single s = (globals s)\<lparr>caller := cl\<rparr>" by (simp add: single_def At)
      ultimately have "step Caller_step (single s) = Some (single s')" using cs by simp
      from run_snoc_step [OF r this]
      have 2: "run (es @ [Caller_step]) (Initialize nc static_init) = Some (single s')" .
      show ?thesis
        by (rule bridgedI [OF 1 2])
           (use tot in \<open>simp add: submitted_total_snoc At sub' Submitter_step\<close>)
    qed
  next
    case (Worker_of i)
    with st obtain g1 where ws: "worker_step i (globals s) = Some g1"
      and s': "s' = s\<lparr>globals := g1\<rparr>"
      by (auto split: option.splits)
    note fr = worker_step_frame [OF ws]
    have sub': "submitters s' = submitters s" and g': "globals s' = g1" by (simp_all add: s')
    have 1: "one_inv s'"
      unfolding one_inv_def sub' g' using l c add fr by simp
    have "worker_step i (single s) = Some (single s')"
      by (simp add: single_def worker_step_caller_update ws sub' g')
    then have "step (Worker_step i) (single s) = Some (single s')" by simp
    from run_snoc_step [OF r this]
    have 2: "run (es @ [Worker_step i]) (Initialize nc static_init) = Some (single s')" .
    show ?thesis
      by (rule bridgedI [OF 1 2])
         (use tot in \<open>simp add: submitted_total_snoc sub' Worker_of\<close>)
  qed
qed

lemma bridged_run:
  "mrun es s = Some s' \<Longrightarrow> bridged nc n s \<Longrightarrow> bridged nc (n + msubmitted_total es) s'"
proof (induction es arbitrary: s n)
  case Nil
  then show ?case by (simp add: msubmitted_total_def)
next
  case (Cons e es)
  from Cons.prems(1) obtain s1 where s1: "mstep e s = Some s1" and r: "mrun es s1 = Some s'"
    by (auto split: option.splits)
  from Cons.IH [OF r bridged_step [OF Cons.prems(2) s1]]
  show ?case by (simp add: msubmitted_total_def add.assoc)
qed

lemma bridged_init: "bridged nc 0 (minit 1 nc)"
proof -
  have c: "caller (Initialize nc static_init) = Idle"
    by (simp add: Initialize_def static_init_def Let_def)
  have 1: "one_inv (minit 1 nc)" unfolding one_inv_def using c by (simp add: minit_def)
  have "single (minit 1 nc) = Initialize nc static_init"
    using c by (simp add: single_def minit_def)
  then have 2: "run [] (Initialize nc static_init) = Some (single (minit 1 nc))" by simp
  show ?thesis by (rule bridgedI [OF 1 2]) (simp add: submitted_total_def minit_def)
qed

lemma one_submitter_run:
  assumes "mrun es (minit 1 numCores) = Some s"
  shows "\<exists>es'. run es' (Initialize numCores static_init) = Some (single s)
           \<and> submitted_total es' + owed (submitters s ! 0) = msubmitted_total es"
  using bridged_run [OF assms bridged_init] by (simp add: bridged_def)

text \<open>So with one submitting thread, of any number of threads that do not submit, the
  labels are equal exactly when the system is idle, and ordered as long as fewer than
  \<open>2^64\<close> units have been submitted.\<close>

lemma one_submitter_labels:
  assumes r: "mrun es (minit 1 numCores) = Some s"
  shows "(finishedLabel (globals s) = currentLabel (globals s) \<longleftrightarrow> idle (single s))
    \<and> (msubmitted_total es < 2 ^ 64 \<longrightarrow> finishedLabel (globals s) \<le> currentLabel (globals s))"
proof -
  from one_submitter_run [OF r] obtain es' where
    r': "run es' (Initialize numCores static_init) = Some (single s)"
    and tot: "submitted_total es' + owed (submitters s ! 0) = msubmitted_total es" by blast
  from label_inv_run [OF r' label_inv_init] have "label_inv (submitted_total es') (single s)"
    by simp
  moreover from size_inv_run [OF r' size_inv_init] have "size_inv (single s)" .
  ultimately have l: "(finishedLabel (single s) = currentLabel (single s) \<longleftrightarrow> idle (single s))
    \<and> (submitted_total es' < 2 ^ 64 \<longrightarrow> finishedLabel (single s) \<le> currentLabel (single s))"
    using labels_of_inv [of "submitted_total es'" "single s"] by blast
  have f: "finishedLabel (single s) = finishedLabel (globals s)"
    and c: "currentLabel (single s) = currentLabel (globals s)" by (simp_all add: single_def)
  from tot have "submitted_total es' \<le> msubmitted_total es" by simp
  with l show ?thesis unfolding f c by auto
qed

section \<open>Dispatch\<close>

subsection \<open>The number of groups\<close>

text \<open>When \<^verbatim>\<open>jobCount + groupSize - 1\<close> fits 32 bits, \<^verbatim>\<open>groupCount\<close> is the ceiling of
  \<^verbatim>\<open>jobCount / groupSize\<close>, computed on natural numbers as
  \<open>(jobCount + groupSize - 1) div groupSize\<close>.\<close>

lemma groupCount_ceil:
  assumes gs: "groupSize \<noteq> 0" and fit: "unat jobCount + unat groupSize - 1 < 2 ^ 32"
  shows "unat (groupCount jobCount groupSize) = (unat jobCount + unat groupSize - 1) div unat groupSize"
proof -
  from gs have pos: "0 < unat groupSize" by (simp add: unat_gt_0)
  have a: "jobCount + groupSize - 1 = jobCount + (groupSize - 1)" by simp
  have b: "unat (groupSize - 1) = unat groupSize - 1"
    using gs by (simp add: unat_minus_one)
  have "unat jobCount + unat (groupSize - 1) < 2 ^ LENGTH(32)"
    unfolding b using fit pos by simp
  then have "unat (jobCount + (groupSize - 1)) = unat jobCount + unat (groupSize - 1)"
    by (rule unat_add_lem [THEN iffD1])
  then have 1: "unat (jobCount + groupSize - 1) = unat jobCount + unat groupSize - 1"
    unfolding a b using pos by simp
  show ?thesis by (simp add: groupCount_def unat_div 1)
qed

text \<open>
  C5. The sum \<^verbatim>\<open>jobCount + groupSize - 1\<close> is computed in \<^verbatim>\<open>uint32_t\<close> and wraps. At
  \<^verbatim>\<open>Dispatch(3, 4294967295, f)\<close> it is 1, so \<^verbatim>\<open>groupCount\<close> is 0, where the ceiling of
  \<open>3 / 4294967295\<close> is 1: \<^verbatim>\<open>currentLabel\<close> is not incremented and there is nothing to
  push.
\<close>

theorem groupCount_overflow:
  "groupCount 3 4294967295 = 0
   \<and> (unat (3 :: u32) + unat (4294967295 :: u32) - 1) div unat (4294967295 :: u32) = 1
   \<and> currentLabel (Dispatch 3 4294967295 f s) = currentLabel s
   \<and> caller (Dispatch 3 4294967295 f s) = Pushing []"
  by (simp add: groupCount_def Dispatch_def Dispatch_loop.simps)

subsection \<open>The groups\<close>

text \<open>
  The closures \<^verbatim>\<open>Dispatch\<close> builds, when \<^verbatim>\<open>jobCount + groupSize - 1\<close> fits 32 bits:
  there are \<open>ceil (jobCount / groupSize)\<close> of them; closure \<open>g\<close> calls \<open>f\<close> on the
  indices from \<open>g * groupSize\<close> up to, not including, \<open>min (g * groupSize + groupSize)
  jobCount\<close>, in increasing order and with group index \<open>g\<close>; and together, in the order
  they are built, they call \<open>f\<close> once on each index below \<^verbatim>\<open>jobCount\<close>, with group index
  \<open>index div groupSize\<close>.
\<close>

lemma group_start_below:
  assumes "g < (n + s - 1) div s" "0 < (s::nat)"
  shows "g * s + s \<le> n + s - 1" and "g * s < n"
proof -
  from assms have "Suc g \<le> (n + s - 1) div s" by simp
  then have "Suc g * s \<le> n + s - 1"
    using assms(2) by (simp only: less_eq_div_iff_mult_less_eq)
  then show 1: "g * s + s \<le> n + s - 1" by (simp add: add.commute)
  with assms(2) show "g * s < n" by arith
qed

lemma groups_reach_end:
  assumes "0 < (s::nat)"
  shows "n \<le> (n + s - 1) div s * s"
proof -
  have "(n + s - 1) div s * s = (n + s - 1) - (n + s - 1) mod s"
    by (simp add: minus_mod_eq_div_mult)
  moreover have "(n + s - 1) mod s < s" using assms by simp
  ultimately show ?thesis using assms by arith
qed

lemma div_in_group:
  assumes "g * s \<le> k" "k < g * s + s"
  shows "k div s = (g::nat)"
  using assms(1,2) nat_le_iff_add by fastforce

lemma jobGroup_loop_eq:
  "jobGroup_loop f args i e =
     map (\<lambda>k. Ranged f (of_nat k) (groupIndex args)) [unat i ..< unat e]"
proof (induction f args i e rule: jobGroup_loop.induct)
  case (1 job args i groupJobEnd)
  show ?case
  proof (cases "i < groupJobEnd")
    case True
    then have lt: "unat i < unat groupJobEnd" by (simp add: word_less_nat_alt)
    have "jobGroup_loop job args i groupJobEnd =
        Ranged job i (groupIndex args) # jobGroup_loop job (args\<lparr>jobIndex := i\<rparr>) (i + 1) groupJobEnd"
      using True by (subst jobGroup_loop.simps) (simp add: Let_def)
    also have "\<dots> = Ranged job i (groupIndex args) #
        map (\<lambda>k. Ranged job (of_nat k) (groupIndex args)) [Suc (unat i) ..< unat groupJobEnd]"
      using "1.IH" [OF True refl] by (simp add: unat_inc_below [OF True])
    also have "\<dots> = map (\<lambda>k. Ranged job (of_nat k) (groupIndex args)) [unat i ..< unat groupJobEnd]"
      using lt by (simp add: upt_conv_Cons)
    finally show ?thesis .
  next
    case False
    then have "\<not> unat i < unat groupJobEnd" by (simp add: word_less_nat_alt)
    with False show ?thesis by (subst jobGroup_loop.simps) simp
  qed
qed


lemma groups_concat:
  assumes s: "0 < (s::nat)" and m: "m \<le> (n + s - 1) div s"
  shows "concat (map (\<lambda>g. map (\<lambda>k. F k g) [g * s ..< min (g * s + s) n]) [0..<m])
       = map (\<lambda>k. F k (k div s)) [0 ..< min (m * s) n]"
  using m
proof (induction m)
  case 0
  then show ?case by simp
next
  case (Suc m)
  then have lt: "m < (n + s - 1) div s" and le: "m \<le> (n + s - 1) div s" by simp_all
  from group_start_below(2) [OF lt s] have a: "min (m * s) n = m * s" by simp
  have b: "min (m * s + s) n = min (Suc m * s) n" by (simp add: add.commute)
  have in_group: "map (\<lambda>k. F k m) [m * s ..< min (m * s + s) n]
      = map (\<lambda>k. F k (k div s)) [m * s ..< min (m * s + s) n]"
  proof (rule map_cong [OF refl])
    fix k assume "k \<in> set [m * s ..< min (m * s + s) n]"
    then have "m * s \<le> k" "k < m * s + s" by simp_all
    then have "k div s = m" by (rule div_in_group)
    then show "F k m = F k (k div s)" by simp
  qed
  have "m * s \<le> min (m * s + s) n" using group_start_below(2) [OF lt s] by simp
  then obtain d where d: "min (m * s + s) n = m * s + d" by (auto simp: le_iff_add)
  have join: "[0 ..< m * s] @ [m * s ..< min (m * s + s) n] = [0 ..< min (m * s + s) n]"
    unfolding d by (rule upt_add_eq_append [symmetric]) simp
  have "concat (map (\<lambda>g. map (\<lambda>k. F k g) [g * s ..< min (g * s + s) n]) [0..<Suc m])
      = map (\<lambda>k. F k (k div s)) [0 ..< m * s] @ map (\<lambda>k. F k (k div s)) [m * s ..< min (m * s + s) n]"
    using Suc.IH [OF le] by (simp add: a in_group)
  also have "\<dots> = map (\<lambda>k. F k (k div s)) [0 ..< min (m * s + s) n]"
    by (simp only: map_append [symmetric] join)
  finally show ?case by (simp only: b)
qed

lemma groups_cover:
  assumes s: "0 < (s::nat)"
  shows "concat (map (\<lambda>g. map (\<lambda>k. F k g) [g * s ..< min (g * s + s) n]) [0..<(n + s - 1) div s])
       = map (\<lambda>k. F k (k div s)) [0 ..< n]"
proof -
  have "min ((n + s - 1) div s * s) n = n" using groups_reach_end [OF s, of n] by simp
  with groups_concat [OF s le_refl, where n = n and F = F] show ?thesis by simp
qed


lemma jobGroup_body_eq:
  assumes gs: "groupSize \<noteq> 0" and fit: "unat jobCount + unat groupSize - 1 < 2 ^ 32"
    and g: "g < (unat jobCount + unat groupSize - 1) div unat groupSize"
  shows "jobGroup_body jobCount groupSize f (of_nat g) =
     map (\<lambda>k. Ranged f (of_nat k) (of_nat g))
       [g * unat groupSize ..< min (g * unat groupSize + unat groupSize) (unat jobCount)]"
proof -
  let ?s = "unat groupSize" and ?n = "unat jobCount"
  let ?off = "(of_nat g :: u32) * groupSize"
  from gs have s: "0 < ?s" by (simp add: unat_gt_0)
  note b = group_start_below [OF g s]
  from b(1) fit have e32: "g * ?s + ?s < 2 ^ 32" by simp
  have "g \<le> g * ?s + ?s" using s by (cases ?s) simp_all
  from this e32 have "g < 2 ^ 32" by (rule le_less_trans)
  then have g32: "g < 2 ^ LENGTH(32)" by simp
  then have ug: "unat (of_nat g :: u32) = g" by (simp add: unat_of_nat)
  have "unat (of_nat g :: u32) * unat groupSize < 2 ^ LENGTH(32)"
    unfolding ug using e32 by simp
  then have "unat ?off = unat (of_nat g :: u32) * unat groupSize"
    by (rule unat_mult_lem [THEN iffD1])
  then have uo: "unat ?off = g * ?s" by (simp only: ug)
  have "unat ?off + unat groupSize < 2 ^ LENGTH(32)"
    unfolding uo using e32 by simp
  then have "unat (?off + groupSize) = unat ?off + unat groupSize"
    by (rule unat_add_lem [THEN iffD1])
  then have ue: "unat (?off + groupSize) = g * ?s + ?s" by (simp only: uo)
  have um: "unat (min (?off + groupSize) jobCount) = min (g * ?s + ?s) ?n"
    unfolding ue [symmetric] by (simp add: min_def word_le_nat_alt)
  show ?thesis
    unfolding jobGroup_body_def Let_def jobGroup_loop_eq um uo by simp
qed

lemma Dispatch_groups:
  assumes gs: "groupSize \<noteq> 0" and fit: "unat jobCount + unat groupSize - 1 < 2 ^ 32"
  shows "map run_job (Dispatch_loop jobCount groupSize f (groupCount jobCount groupSize) 0) =
     map (\<lambda>g. Some (map (\<lambda>k. Ranged f (of_nat k) (of_nat g))
                  [g * unat groupSize ..< min (g * unat groupSize + unat groupSize) (unat jobCount)]))
       [0 ..< (unat jobCount + unat groupSize - 1) div unat groupSize]"
proof -
  have "map run_job (Dispatch_loop jobCount groupSize f (groupCount jobCount groupSize) 0)
      = map (\<lambda>g. Some (jobGroup_body jobCount groupSize f (of_nat g)))
          [0 ..< (unat jobCount + unat groupSize - 1) div unat groupSize]"
    by (simp add: Dispatch_loop_eq groupCount_ceil [OF gs fit] comp_def)
  also have "\<dots> = map (\<lambda>g. Some (map (\<lambda>k. Ranged f (of_nat k) (of_nat g))
                  [g * unat groupSize ..< min (g * unat groupSize + unat groupSize) (unat jobCount)]))
       [0 ..< (unat jobCount + unat groupSize - 1) div unat groupSize]"
    by (rule map_cong [OF refl]) (simp add: jobGroup_body_eq [OF gs fit])
  finally show ?thesis .
qed

lemma Dispatch_covers:
  assumes gs: "groupSize \<noteq> 0" and fit: "unat jobCount + unat groupSize - 1 < 2 ^ 32"
  shows "concat (map (\<lambda>j. the (run_job j))
            (Dispatch_loop jobCount groupSize f (groupCount jobCount groupSize) 0))
       = map (\<lambda>k. Ranged f (of_nat k) (of_nat (k div unat groupSize))) [0 ..< unat jobCount]"
proof -
  from gs have s: "0 < unat groupSize" by (simp add: unat_gt_0)
  have "map (\<lambda>j. the (run_job j)) (Dispatch_loop jobCount groupSize f (groupCount jobCount groupSize) 0)
      = map the (map run_job (Dispatch_loop jobCount groupSize f (groupCount jobCount groupSize) 0))"
    by simp
  also have "\<dots> = map (\<lambda>g. map (\<lambda>k. Ranged f (of_nat k) (of_nat g))
                  [g * unat groupSize ..< min (g * unat groupSize + unat groupSize) (unat jobCount)])
       [0 ..< (unat jobCount + unat groupSize - 1) div unat groupSize]"
    unfolding Dispatch_groups [OF gs fit] by (simp add: comp_def)
  finally show ?thesis
    using groups_cover [OF s, of "\<lambda>k g. Ranged f (of_nat k) (of_nat g)" "unat jobCount"]
    by simp
qed

text \<open>\<^verbatim>\<open>Dispatch(10, 3, f)\<close>: four groups, of sizes 3, 3, 3 and 1, which call \<open>f\<close> on the
  indices 0 to 9 in increasing order with the group indices 0,0,0,1,1,1,2,2,2,3.\<close>

lemma Dispatch_10_3:
  "groupCount 10 3 = 4
   \<and> map run_job (Dispatch_loop 10 3 f (groupCount 10 3) 0) =
      [Some [Ranged f 0 0, Ranged f 1 0, Ranged f 2 0],
       Some [Ranged f 3 1, Ranged f 4 1, Ranged f 5 1],
       Some [Ranged f 6 2, Ranged f 7 2, Ranged f 8 2],
       Some [Ranged f 9 3]]"
  by (simp add: groupCount_def Dispatch_loop.simps jobGroup_body_def jobGroup_loop.simps Let_def)

text \<open>
  C1. At \<^verbatim>\<open>Dispatch(3, 4294967295, f)\<close> the loop of \<^verbatim>\<open>Dispatch\<close> builds no closure: the
  call returns with the state as it was, and \<open>f\<close> is invoked for none of the indices
  0, 1, 2.
\<close>

theorem Dispatch_overflow_no_groups:
  "Dispatch_loop 3 4294967295 f (groupCount 3 4294967295) 0 = []
   \<and> run [Call_Dispatch 3 4294967295 f, Caller_step] (Initialize 1 static_init)
       = Some (Initialize 1 static_init)
   \<and> invoked (Initialize 1 static_init) = []"
  by (simp add: sys_eval)

end
